theory Spec2Isabelle
  imports
    Main
    "HOL-Library.Char_ord"
    "HOL-Library.List_Lexorder"
begin

section \<open>Data model\<close>

text \<open>
  The program (\<^verbatim>\<open>analysis_to_sample.py\<close>) works on pandas tables. A cell of a table
  is a number, a string or the missing value \<^verbatim>\<open>NaN\<close>. A table has an ordered
  list of column labels and a list of rows; a row lists its cells in the order of the labels.
  The tables the program reads come from \<^verbatim>\<open>pd.read_csv\<close>, which makes labels unique
  (\<open>well_formed\<close> below); a label can repeat only after the renaming in lines 84 and 85,
  and selecting a list of labels then keeps every column that carries one of them, as
  pandas does. Numbers are integers here; the program does no arithmetic on cells, it
  compares, sorts and prints them.
\<close>

datatype cell = Num int | Str string | NaN

record dataframe =
  columns :: "string list"
  rows :: "cell list list"

text \<open>
  Every \<^verbatim>\<open>raise\<close> the functions under study can reach: a missing column label
  (\<^verbatim>\<open>KeyError\<close>), a list index out of range (\<^verbatim>\<open>IndexError\<close>), the
  \<^verbatim>\<open>sys.exit(1)\<close> of \<^verbatim>\<open>fetch_data\<close> after a transport failure, and a failure
  inside the delimiter parser.
\<close>

datatype error = KeyError | IndexError | SystemExit | ParserError

definition empty_frame :: dataframe where
  \<comment> \<open>\<^verbatim>\<open>pd.DataFrame()\<close>: no columns, no rows\<close>
  "empty_frame = \<lparr>columns = [], rows = []\<rparr>"

definition is_empty :: "dataframe \<Rightarrow> bool" where
  \<comment> \<open>\<^verbatim>\<open>df.empty\<close>: some axis has length 0\<close>
  "is_empty df \<longleftrightarrow> rows df = [] \<or> columns df = []"

definition well_formed :: "dataframe \<Rightarrow> bool" where
  \<comment> \<open>the labels are distinct and every row has one cell per label\<close>
  "well_formed df \<longleftrightarrow>
     distinct (columns df) \<and> (\<forall>r \<in> set (rows df). length r = length (columns df))"

definition cell_of :: "string list \<Rightarrow> cell list \<Rightarrow> string \<Rightarrow> cell" where
  \<comment> \<open>the cell of row \<open>r\<close> under label \<open>c\<close>, for a label that is present\<close>
  "cell_of cs r c = (case map_of (zip cs r) c of Some v \<Rightarrow> v | None \<Rightarrow> NaN)"

definition get_column :: "dataframe \<Rightarrow> string \<Rightarrow> error + cell list" where
  \<comment> \<open>\<^verbatim>\<open>df[c]\<close>\<close>
  "get_column df c =
     (if c \<in> set (columns df) then Inr (map (\<lambda>r. cell_of (columns df) r c) (rows df))
      else Inl KeyError)"

definition cells_under :: "string list \<Rightarrow> cell list \<Rightarrow> string \<Rightarrow> cell list" where
  \<comment> \<open>the cells of row \<open>r\<close> in all the columns labelled \<open>c\<close>, from left to right\<close>
  "cells_under cs r c = map snd (filter (\<lambda>(l, v). l = c) (zip cs r))"

definition select_columns :: "string list \<Rightarrow> dataframe \<Rightarrow> error + dataframe" where
  \<comment> \<open>\<^verbatim>\<open>df[cs]\<close> for a list of labels: for each requested label in turn, every column
      that carries it\<close>
  "select_columns cs df =
     (if set cs \<subseteq> set (columns df)
      then Inr \<lparr>columns = concat (map (\<lambda>c. filter (\<lambda>l. l = c) (columns df)) cs),
                rows = map (\<lambda>r. concat (map (cells_under (columns df) r) cs)) (rows df)\<rparr>
      else Inl KeyError)"

definition filter_rows :: "(cell list \<Rightarrow> bool) \<Rightarrow> dataframe \<Rightarrow> dataframe" where
  \<comment> \<open>boolean-mask indexing \<^verbatim>\<open>df[mask]\<close>\<close>
  "filter_rows p df = df\<lparr>rows := filter p (rows df)\<rparr>"

definition rename_columns :: "(string \<times> string) list \<Rightarrow> dataframe \<Rightarrow> dataframe" where
  \<comment> \<open>\<^verbatim>\<open>df.rename(columns={...})\<close>: labels not in the mapping stay\<close>
  "rename_columns m df =
     df\<lparr>columns := map (\<lambda>c. case map_of m c of Some c' \<Rightarrow> c' | None \<Rightarrow> c) (columns df)\<rparr>"

definition map_column :: "string \<Rightarrow> (cell \<Rightarrow> cell) \<Rightarrow> dataframe \<Rightarrow> dataframe" where
  \<comment> \<open>replace every cell under label \<open>c\<close> by its image\<close>
  "map_column c f df =
     df\<lparr>rows := map (\<lambda>r. map (\<lambda>(l, v). if l = c then f v else v) (zip (columns df) r)) (rows df)\<rparr>"

section \<open>Strings\<close>

definition starts_with :: "string \<Rightarrow> string \<Rightarrow> bool" where
  \<comment> \<open>\<^verbatim>\<open>s.startswith(p)\<close>\<close>
  "starts_with p s \<longleftrightarrow> take (length p) s = p"

fun split_on :: "char \<Rightarrow> string \<Rightarrow> string list" where
  \<comment> \<open>\<^verbatim>\<open>s.split(sep)\<close> for a one-character separator: never the empty list\<close>
  "split_on sep [] = [[]]"
| "split_on sep (c # cs) =
     (if c = sep then [] # split_on sep cs
      else (case split_on sep cs of [] \<Rightarrow> [[c]] | p # ps \<Rightarrow> (c # p) # ps))"

fun join_with :: "string \<Rightarrow> string list \<Rightarrow> string" where
  \<comment> \<open>\<^verbatim>\<open>sep.join(xs)\<close>\<close>
  "join_with sep [] = []"
| "join_with sep [x] = x"
| "join_with sep (x # y # ys) = x @ sep @ join_with sep (y # ys)"

definition is_space :: "char \<Rightarrow> bool" where
  \<comment> \<open>the ASCII characters Python's \<^verbatim>\<open>str.strip()\<close> removes\<close>
  "is_space c \<longleftrightarrow> c \<in> set [CHR 0x09, CHR 0x0A, CHR 0x0B, CHR 0x0C, CHR 0x0D,
                              CHR 0x1C, CHR 0x1D, CHR 0x1E, CHR 0x1F, CHR 0x20]"

definition strip :: "string \<Rightarrow> string" where
  \<comment> \<open>\<^verbatim>\<open>s.strip()\<close>\<close>
  "strip s = rev (dropWhile is_space (rev (dropWhile is_space s)))"

definition digit_char :: "nat \<Rightarrow> char" where
  "digit_char n = ''0123456789'' ! n"

fun digits :: "nat \<Rightarrow> string" where
  "digits n = (if n < 10 then [digit_char n] else digits (n div 10) @ [digit_char (n mod 10)])"

declare digits.simps [simp del]

definition py_str :: "cell \<Rightarrow> string" where
  \<comment> \<open>\<^verbatim>\<open>str(x)\<close>, also what \<^verbatim>\<open>astype(str)\<close> and an f-string give for a cell\<close>
  "py_str c =
     (case c of
        Num i \<Rightarrow> (if i < 0 then CHR ''-'' # digits (nat (- i)) else digits (nat i))
      | Str s \<Rightarrow> s
      | NaN \<Rightarrow> ''nan'')"

subsection \<open>The regular expression \<^verbatim>\<open>/<name>/([^/]+)/\<close>\<close>

definition match_at :: "string \<Rightarrow> string \<Rightarrow> string option" where
  \<comment> \<open>a match that begins at the first character: the literal prefix, then the longest run
      of characters other than \<^verbatim>\<open>/\<close>, which must be non-empty and followed by \<^verbatim>\<open>/\<close>\<close>
  "match_at pre s =
     (if starts_with pre s
      then (let rest = drop (length pre) s;
                seg = takeWhile (\<lambda>c. c \<noteq> CHR ''/'') rest
            in if seg \<noteq> [] \<and> length seg < length rest then Some seg else None)
      else None)"

fun search :: "string \<Rightarrow> string \<Rightarrow> string option" where
  \<comment> \<open>\<^verbatim>\<open>re.search\<close>: the group of the leftmost match\<close>
  "search pre [] = match_at pre []"
| "search pre (c # cs) =
     (case match_at pre (c # cs) of Some g \<Rightarrow> Some g | None \<Rightarrow> search pre cs)"

definition str_extract :: "string \<Rightarrow> cell \<Rightarrow> cell" where
  \<comment> \<open>\<^verbatim>\<open>Series.str.extract(pattern, expand=False)\<close> on one cell: the group, or \<^verbatim>\<open>NaN\<close>
      when the pattern does not match or the cell is not a string\<close>
  "str_extract pre c =
     (case c of Str s \<Rightarrow> (case search pre s of Some g \<Rightarrow> Str g | None \<Rightarrow> NaN) | _ \<Rightarrow> NaN)"

definition cfg_prefix :: string where
  "cfg_prefix = ''/configuration-files/''"

section \<open>Seqspec normalisation (\<^verbatim>\<open>rearrange_sequence_files\<close>, lines 100 to 103)\<close>

definition astype_str_replace_nan :: "cell \<Rightarrow> cell" where
  \<comment> \<open>line 101: \<^verbatim>\<open>.astype(str).replace('nan', '')\<close>\<close>
  "astype_str_replace_nan c = (if py_str c = ''nan'' then Str [] else Str (py_str c))"

definition extract_nonempty :: "cell \<Rightarrow> cell" where
  \<comment> \<open>lines 102 and 103: rows whose value differs from \<^verbatim>\<open>''\<close> get the extracted group\<close>
  "extract_nonempty c = (if c \<noteq> Str [] then str_extract cfg_prefix c else c)"

definition normalize_seqspec :: "cell \<Rightarrow> cell" where
  "normalize_seqspec c = extract_nonempty (astype_str_replace_nan c)"

definition process_seqspecs :: "dataframe \<Rightarrow> dataframe" where
  "process_seqspecs df =
     (if ''Seqspecs'' \<in> set (columns df)
      then map_column ''Seqspecs'' extract_nonempty
             (map_column ''Seqspecs'' astype_str_replace_nan df)
      else df)"

section \<open>The order \<^verbatim>\<open>sort_values\<close> uses\<close>

text \<open>
  \<^verbatim>\<open>DataFrame.sort_values\<close> with several keys ranks the values of each key column:
  numbers by value, before strings by code point, and \<^verbatim>\<open>NaN\<close> last
  (\<^verbatim>\<open>na_position='last'\<close>). Rows are then ordered lexicographically by their ranks;
  rows with equal keys keep their order.
\<close>

fun cell_le :: "cell \<Rightarrow> cell \<Rightarrow> bool" where
  "cell_le (Num i) (Num j) = (i \<le> j)"
| "cell_le (Num i) (Str t) = True"
| "cell_le (Num i) NaN = True"
| "cell_le (Str s) (Num j) = False"
| "cell_le (Str s) (Str t) = (s \<le> t)"
| "cell_le (Str s) NaN = True"
| "cell_le NaN (Num j) = False"
| "cell_le NaN (Str t) = False"
| "cell_le NaN NaN = True"

instantiation cell :: linorder
begin

definition less_eq_cell :: "cell \<Rightarrow> cell \<Rightarrow> bool" where
  "less_eq_cell a b \<longleftrightarrow> cell_le a b"

definition less_cell :: "cell \<Rightarrow> cell \<Rightarrow> bool" where
  "less_cell a b \<longleftrightarrow> cell_le a b \<and> \<not> cell_le b a"

instance
proof
  fix x y z :: cell
  show "(x < y) = (x \<le> y \<and> \<not> y \<le> x)"
    by (simp add: less_cell_def less_eq_cell_def)
  show "x \<le> x"
    by (cases x) (simp_all add: less_eq_cell_def)
  show "x \<le> y \<Longrightarrow> y \<le> z \<Longrightarrow> x \<le> z"
    by (cases x; cases y; cases z) (auto simp: less_eq_cell_def)
  show "x \<le> y \<Longrightarrow> y \<le> x \<Longrightarrow> x = y"
    by (cases x; cases y) (auto simp: less_eq_cell_def)
  show "x \<le> y \<or> y \<le> x"
    by (cases x; cases y) (auto simp: less_eq_cell_def)
qed

end

definition key_of :: "string list \<Rightarrow> string list \<Rightarrow> cell list \<Rightarrow> cell list" where
  \<comment> \<open>the cells of row \<open>r\<close> under the labels \<open>ks\<close>, in that order\<close>
  "key_of ks cs r = map (cell_of cs r) ks"

definition sort_values :: "string list \<Rightarrow> dataframe \<Rightarrow> error + dataframe" where
  \<comment> \<open>\<^verbatim>\<open>df.sort_values(ks)\<close>\<close>
  "sort_values ks df =
     (if set ks \<subseteq> set (columns df)
      then Inr (df\<lparr>rows := sort_key (key_of ks (columns df)) (rows df)\<rparr>)
      else Inl KeyError)"

section \<open>The outer join\<close>

text \<open>
  \<^verbatim>\<open>pd.merge(left, right, on=ks, how='outer')\<close> for frames whose other labels do not
  overlap and whose key labels do not repeat. The result has the columns of the left frame,
  then the columns of the right frame that are not key columns. A left row is paired with
  every right row that has the same key; a left row
  without a partner is filled with \<^verbatim>\<open>NaN\<close> on the right, and a right row without a
  partner is filled with \<^verbatim>\<open>NaN\<close> in the left columns that are not key columns.
  Two missing key cells count as equal, as in pandas. The order in which pandas emits the
  merged rows is not modelled (left rows first here): the program sorts the result, and
  no statement below depends on the order of rows with equal sort keys.
\<close>

definition merge_outer :: "string list \<Rightarrow> dataframe \<Rightarrow> dataframe \<Rightarrow> dataframe" where
  "merge_outer ks l r =
     (let rest = filter (\<lambda>c. c \<notin> set ks) (columns r);
          other_cells = (\<lambda>b. map snd (filter (\<lambda>(c, v). c \<notin> set ks) (zip (columns r) b)));
          partners = (\<lambda>a. filter (\<lambda>b. key_of ks (columns r) b = key_of ks (columns l) a) (rows r));
          left_rows = concat (map (\<lambda>a.
             if partners a = [] then [a @ map (\<lambda>c. NaN) rest]
             else map (\<lambda>b. a @ other_cells b) (partners a)) (rows l));
          right_only = filter (\<lambda>b. \<not> (\<exists>a \<in> set (rows l).
             key_of ks (columns l) a = key_of ks (columns r) b)) (rows r);
          right_rows = map (\<lambda>b.
             map (\<lambda>c. if c \<in> set ks then cell_of (columns r) b c else NaN) (columns l)
             @ other_cells b) right_only
      in \<lparr>columns = columns l @ rest, rows = left_rows @ right_rows\<rparr>)"

section \<open>The Reshaper: \<^verbatim>\<open>rearrange_sequence_files\<close>\<close>

definition r1_cols :: "string list" where
  "r1_cols = [''Lane'', ''measurement_sets'', ''file_modality'', ''R1_path'', ''R1_md5sum'',
              ''Flowcell ID'', ''Seqspecs'']"

definition r2_cols :: "string list" where
  "r2_cols = [''Lane'', ''measurement_sets'', ''file_modality'', ''R2_path'', ''R2_md5sum'',
              ''Flowcell ID'', ''Seqspecs'']"

definition join_cols :: "string list" where
  "join_cols = [''Lane'', ''measurement_sets'', ''file_modality'', ''Flowcell ID'', ''Seqspecs'']"

definition sort_cols :: "string list" where
  "sort_cols = [''measurement_sets'', ''Lane'', ''file_modality'', ''Flowcell ID'']"

definition final_cols :: "string list" where
  "final_cols = [''R1_path'', ''R1_md5sum'', ''R2_path'', ''R2_md5sum'',
                 ''measurement_sets'', ''Lane'', ''file_modality'', ''Flowcell ID'', ''Seqspecs'']"

definition read_type_is :: "string list \<Rightarrow> string list \<Rightarrow> cell list \<Rightarrow> bool" where
  \<comment> \<open>the mask \<^verbatim>\<open>df['Illumina Read Type'].isin(ts)\<close>, row by row\<close>
  "read_type_is ts cs r \<longleftrightarrow> cell_of cs r ''Illumina Read Type'' \<in> Str ` set ts"

definition rearrange_sequence_files :: "dataframe \<Rightarrow> error + dataframe" where
  "rearrange_sequence_files sequence_files =
     (if is_empty sequence_files then Inr empty_frame
      else
        (case get_column sequence_files ''Illumina Read Type'' of
           Inl e \<Rightarrow> Inl e
         | Inr read_types \<Rightarrow>
            (let cs = columns sequence_files;
                 df = filter_rows (read_type_is [''R1'', ''R2''] cs) sequence_files;
                 r1_data = filter_rows (read_type_is [''R1''] cs) df;
                 r2_data = filter_rows (read_type_is [''R2''] cs) df;
                 r1_data = rename_columns
                   [(''Accession'', ''R1_path''), (''MD5sum'', ''R1_md5sum'')] r1_data;
                 r2_data = rename_columns
                   [(''Accession'', ''R2_path''), (''MD5sum'', ''R2_md5sum'')] r2_data
             in (case select_columns r1_cols r1_data of
                   Inl e \<Rightarrow> Inl e
                 | Inr r1_data \<Rightarrow>
                    (case select_columns r2_cols r2_data of
                       Inl e \<Rightarrow> Inl e
                     | Inr r2_data \<Rightarrow>
                        (let merged_df = merge_outer join_cols r1_data r2_data;
                             merged_df = process_seqspecs merged_df
                         in (case sort_values sort_cols merged_df of
                               Inl e \<Rightarrow> Inl e
                             | Inr merged_df \<Rightarrow> select_columns final_cols merged_df)))))))"

section \<open>The fetcher: \<^verbatim>\<open>fetch_data\<close>\<close>

text \<open>
  The HTTP request and \<^verbatim>\<open>pd.read_csv\<close> are library code: \<open>http_get\<close> gives the
  body of the response to a URL, or \<open>None\<close> when \<^verbatim>\<open>requests\<close> raises, and
  \<open>read_csv\<close> is the delimiter parser. What \<^verbatim>\<open>fetch_data\<close> itself does is the
  line filter before the parser and the trimming of the labels after it.
\<close>

definition kept_lines :: "string \<Rightarrow> string list" where
  \<comment> \<open>lines 13 and 14: the lines of the body that do not start with \<^verbatim>\<open>20\<close>\<close>
  "kept_lines text = filter (\<lambda>line. \<not> starts_with ''20'' line) (split_on CHR 0x0A text)"

definition tsv_data :: "string \<Rightarrow> string" where
  "tsv_data text = join_with [CHR 0x0A] (kept_lines text)"

definition fetch_data ::
  "(string \<Rightarrow> error + dataframe) \<Rightarrow> (string \<Rightarrow> string option) \<Rightarrow> string \<Rightarrow> error + dataframe"
where
  "fetch_data read_csv http_get url =
     (case http_get url of
        None \<Rightarrow> Inl SystemExit
      | Some text \<Rightarrow>
         (case read_csv (tsv_data text) of
            Inl e \<Rightarrow> Inl e
          | Inr df \<Rightarrow> Inr (df\<lparr>columns := map strip (columns df)\<rparr>)))"

section \<open>The Enumerator: \<^verbatim>\<open>get_sequence_files\<close>\<close>

definition set_column :: "string \<Rightarrow> cell \<Rightarrow> dataframe \<Rightarrow> dataframe" where
  \<comment> \<open>\<^verbatim>\<open>df[c] = v\<close> for a scalar: overwrite the column, or append it\<close>
  "set_column c v df =
     (if c \<in> set (columns df) then map_column c (\<lambda>x. v) df
      else \<lparr>columns = columns df @ [c], rows = map (\<lambda>r. r @ [v]) (rows df)\<rparr>)"

definition union_columns :: "string list list \<Rightarrow> string list" where
  \<comment> \<open>the labels of all frames, in the order of their first appearance\<close>
  "union_columns css = foldl (\<lambda>acc cs. acc @ filter (\<lambda>c. c \<notin> set acc) cs) [] css"

definition concat_frames :: "dataframe list \<Rightarrow> dataframe" where
  \<comment> \<open>\<^verbatim>\<open>pd.concat(tables, ignore_index=True)\<close>: a frame without a column gets \<^verbatim>\<open>NaN\<close>\<close>
  "concat_frames ts =
     (let cs = union_columns (map columns ts)
      in \<lparr>columns = cs,
          rows = concat (map (\<lambda>t. map (\<lambda>r. map (cell_of (columns t) r) cs) (rows t)) ts)\<rparr>)"

definition measurement_url :: "string \<Rightarrow> string" where
  "measurement_url measurement_id =
     ''https://api.data.igvf.org/multireport.tsv?type=SequenceFile&file_set.@id=%2Fmeasurement-sets%2F''
     @ measurement_id
     @ ''%2F&illumina_read_type=*&field=%40id&field=accession&field=illumina_read_type&field=lane&field=md5sum&field=flowcell_id&field=seqspecs''"

definition auxiliary_url :: "string \<Rightarrow> string" where
  "auxiliary_url aux_id =
     ''https://api.data.igvf.org/multireport.tsv?type=SequenceFile&file_set.@id=%2Fauxiliary-sets%2F''
     @ aux_id
     @ ''%2F&illumina_read_type=*&field=%40id&field=accession&field=illumina_read_type&field=lane&field=md5sum&field=seqspecs''"

definition aux_id_of :: "string \<Rightarrow> error + string" where
  \<comment> \<open>\<^verbatim>\<open>aux_set.split('/')[-2]\<close>\<close>
  "aux_id_of aux_set =
     (let parts = split_on CHR ''/'' aux_set
      in if 2 \<le> length parts then Inr (parts ! (length parts - 2)) else Inl IndexError)"

definition tag_table :: "cell \<Rightarrow> string \<Rightarrow> dataframe \<Rightarrow> dataframe" where
  \<comment> \<open>\<^verbatim>\<open>df['measurement_sets'] = measurement_id; df['file_modality'] = modality\<close>\<close>
  "tag_table measurement_id modality df =
     set_column ''file_modality'' (Str modality) (set_column ''measurement_sets'' measurement_id df)"

text \<open>
  The Enumerator is run against a function \<open>fetch\<close> from URLs to tables (in the program,
  \<^verbatim>\<open>fetch_data\<close> with the credentials). Each function returns the URLs it has requested,
  in order, together with its result, so that the requests made before an error are visible.
\<close>

definition query_aux ::
  "(string \<Rightarrow> error + dataframe) \<Rightarrow> cell \<Rightarrow> string \<Rightarrow> string \<Rightarrow> string list \<times> (error + dataframe)"
where
  \<comment> \<open>lines 55 to 59 and 65 to 69: identifier, request, tags\<close>
  "query_aux fetch measurement_id aux_type aux_set =
     (case aux_id_of aux_set of
        Inl e \<Rightarrow> ([], Inl e)
      | Inr aux_id \<Rightarrow>
         (case fetch (auxiliary_url aux_id) of
            Inl e \<Rightarrow> ([auxiliary_url aux_id], Inl e)
          | Inr df \<Rightarrow> ([auxiliary_url aux_id], Inr (tag_table measurement_id aux_type df))))"

fun aux_loop ::
  "(string \<Rightarrow> error + dataframe) \<Rightarrow> cell \<Rightarrow> (string \<times> string) list
   \<Rightarrow> string list \<times> (error + dataframe list)"
where
  \<comment> \<open>line 63: the loop over \<^verbatim>\<open>zip(aux_types, aux_sets)\<close>; \<^verbatim>\<open>pd.notna\<close> of a string holds\<close>
  "aux_loop fetch measurement_id [] = ([], Inr [])"
| "aux_loop fetch measurement_id ((aux_type, aux_set) # rest) =
     (case query_aux fetch measurement_id aux_type aux_set of
        (log, Inl e) \<Rightarrow> (log, Inl e)
      | (log, Inr t) \<Rightarrow>
         (case aux_loop fetch measurement_id rest of
            (log', Inl e) \<Rightarrow> (log @ log', Inl e)
          | (log', Inr ts) \<Rightarrow> (log @ log', Inr (t # ts))))"

definition aux_types :: "string list" where
  "aux_types = [''gRNA'', ''hash'']"

definition split_aux_sets :: "cell \<Rightarrow> string list" where
  \<comment> \<open>lines 51 and 52\<close>
  "split_aux_sets a = map strip (split_on CHR '','' (strip (py_str a)))"

definition aux_tables ::
  "(string \<Rightarrow> error + dataframe) \<Rightarrow> cell \<Rightarrow> string list \<Rightarrow> string list \<times> (error + dataframe list)"
where
  \<comment> \<open>lines 54 to 70\<close>
  "aux_tables fetch measurement_id aux_sets =
     (if length aux_sets = 1
      then (case query_aux fetch measurement_id ''gRNA'' (aux_sets ! 0) of
              (log, Inl e) \<Rightarrow> (log, Inl e)
            | (log, Inr t) \<Rightarrow> (log, Inr [t]))
      else aux_loop fetch measurement_id (zip aux_types aux_sets))"

definition link_tables ::
  "(string \<Rightarrow> error + dataframe) \<Rightarrow> string list \<Rightarrow> cell list
   \<Rightarrow> string list \<times> (error + dataframe list)"
where
  \<comment> \<open>the body of the loop over the rows of \<^verbatim>\<open>result\<close>, lines 41 to 70\<close>
  "link_tables fetch cs row =
     (if ''measurement_sets'' \<notin> set cs then ([], Inl KeyError)
      else
        (let measurement_id = cell_of cs row ''measurement_sets'';
             url = measurement_url (py_str measurement_id)
         in (case fetch url of
               Inl e \<Rightarrow> ([url], Inl e)
             | Inr df \<Rightarrow>
                (if ''associated_auxiliary_sets'' \<notin> set cs then ([url], Inl KeyError)
                 else if cell_of cs row ''associated_auxiliary_sets'' = NaN
                 then ([url], Inr [tag_table measurement_id ''scRNA'' df])
                 else
                   (case aux_tables fetch measurement_id
                           (split_aux_sets (cell_of cs row ''associated_auxiliary_sets'')) of
                      (log, Inl e) \<Rightarrow> (url # log, Inl e)
                    | (log, Inr ts) \<Rightarrow>
                       (url # log, Inr (tag_table measurement_id ''scRNA'' df # ts)))))))"

fun all_link_tables ::
  "(string \<Rightarrow> error + dataframe) \<Rightarrow> string list \<Rightarrow> cell list list
   \<Rightarrow> string list \<times> (error + dataframe list)"
where
  \<comment> \<open>line 40: the loop over \<^verbatim>\<open>result.iterrows()\<close>, filling \<^verbatim>\<open>all_tables\<close>\<close>
  "all_link_tables fetch cs [] = ([], Inr [])"
| "all_link_tables fetch cs (row # remaining) =
     (case link_tables fetch cs row of
        (log, Inl e) \<Rightarrow> (log, Inl e)
      | (log, Inr ts) \<Rightarrow>
         (case all_link_tables fetch cs remaining of
            (log', Inl e) \<Rightarrow> (log @ log', Inl e)
          | (log', Inr ts') \<Rightarrow> (log @ log', Inr (ts @ ts'))))"

definition get_sequence_files ::
  "(string \<Rightarrow> error + dataframe) \<Rightarrow> dataframe \<Rightarrow> string list \<times> (error + dataframe)"
where
  "get_sequence_files fetch result =
     (case all_link_tables fetch (columns result) (rows result) of
        (log, Inl e) \<Rightarrow> (log, Inl e)
      | (log, Inr all_tables) \<Rightarrow>
         (log, Inr (if all_tables \<noteq> [] then concat_frames all_tables else empty_frame)))"

definition sample_file ::
  "(string \<Rightarrow> error + dataframe) \<Rightarrow> dataframe \<Rightarrow> error + dataframe"
where
  \<comment> \<open>steps 2 and 3 of \<^verbatim>\<open>main\<close>: the Enumerator, then the Reshaper\<close>
  "sample_file fetch analysis_sets =
     (case snd (get_sequence_files fetch analysis_sets) of
        Inl e \<Rightarrow> Inl e
      | Inr sequence_data \<Rightarrow> rearrange_sequence_files sequence_data)"

section \<open>The line filter as the specification words it\<close>

definition lines_after_leading_timestamps :: "string \<Rightarrow> string list" where
  \<comment> \<open>the spec's reading of lines 13 and 14, for comparison with \<open>kept_lines\<close>: the lines that are left when the leading lines starting with \<^verbatim>\<open>20\<close> are dropped\<close>
  "lines_after_leading_timestamps text = dropWhile (starts_with ''20'') (split_on CHR 0x0A text)"

section \<open>Intermediate tables of the Reshaper\<close>

text \<open>
  The following definitions name the intermediate values of \<^verbatim>\<open>rearrange_sequence_files\<close>
  for a table with columns \<open>cs\<close>; they are used to state and prove what the function
  computes, and each is tied to the function by a lemma below.
\<close>

definition side_labels :: "string list" where
  \<comment> \<open>the columns of the input that \<^verbatim>\<open>r1_cols\<close> and \<^verbatim>\<open>r2_cols\<close> select, before the renaming\<close>
  "side_labels = [''Lane'', ''measurement_sets'', ''file_modality'', ''Accession'', ''MD5sum'',
     ''Flowcell ID'', ''Seqspecs'']"

definition side_row :: "string list \<Rightarrow> cell list \<Rightarrow> cell list" where
  \<comment> \<open>a row of \<^verbatim>\<open>r1_data\<close> or \<^verbatim>\<open>r2_data\<close> after line 90 or 91, made from the input row \<open>r\<close>\<close>
  "side_row cs r = [cell_of cs r ''Lane'', cell_of cs r ''measurement_sets'',
     cell_of cs r ''file_modality'', cell_of cs r ''Accession'', cell_of cs r ''MD5sum'',
     cell_of cs r ''Flowcell ID'', cell_of cs r ''Seqspecs'']"

definition renamed :: "string \<Rightarrow> string \<Rightarrow> string \<Rightarrow> string" where
  \<comment> \<open>the renaming of lines 84 and 85, on one label\<close>
  "renamed p m c = (case map_of [(''Accession'', p), (''MD5sum'', m)] c of Some c' \<Rightarrow> c' | None \<Rightarrow> c)"

definition merged_cols :: "string list" where
  \<comment> \<open>the columns of \<^verbatim>\<open>merged_df\<close>\<close>
  "merged_cols = [''Lane'', ''measurement_sets'', ''file_modality'', ''R1_path'', ''R1_md5sum'',
     ''Flowcell ID'', ''Seqspecs'', ''R2_path'', ''R2_md5sum'']"

definition partners :: "string list \<Rightarrow> cell list list \<Rightarrow> cell list \<Rightarrow> cell list list" where
  \<comment> \<open>the R2 rows whose join key is that of the R1 row \<open>a\<close>\<close>
  "partners cs B a = filter (\<lambda>b. key_of join_cols cs b = key_of join_cols cs a) B"

definition unmatched :: "string list \<Rightarrow> cell list list \<Rightarrow> cell list list \<Rightarrow> cell list list" where
  \<comment> \<open>the R2 rows whose join key no R1 row has\<close>
  "unmatched cs A B = filter (\<lambda>b. \<not> (\<exists>a \<in> set A. key_of join_cols cs a = key_of join_cols cs b)) B"

definition right_only_row :: "string list \<Rightarrow> cell list \<Rightarrow> cell list" where
  \<comment> \<open>the merged row of an R2 row without partner\<close>
  "right_only_row cs b = [cell_of cs b ''Lane'', cell_of cs b ''measurement_sets'',
     cell_of cs b ''file_modality'', NaN, NaN, cell_of cs b ''Flowcell ID'',
     cell_of cs b ''Seqspecs'', cell_of cs b ''Accession'', cell_of cs b ''MD5sum'']"

definition merged_rows :: "string list \<Rightarrow> cell list list \<Rightarrow> cell list list \<Rightarrow> cell list list" where
  \<comment> \<open>the rows of \<^verbatim>\<open>merged_df\<close> after line 97, for the R1 rows \<open>A\<close> and the R2 rows \<open>B\<close>\<close>
  "merged_rows cs A B =
     concat (map (\<lambda>a. if partners cs B a = [] then [side_row cs a @ [NaN, NaN]]
                       else map (\<lambda>b. side_row cs a @ [cell_of cs b ''Accession'', cell_of cs b ''MD5sum''])
                              (partners cs B a)) A)
     @ map (right_only_row cs) (unmatched cs A B)"

definition norm_row :: "cell list \<Rightarrow> cell list" where
  \<comment> \<open>lines 100 to 103 on one merged row\<close>
  "norm_row r = map (\<lambda>(l, v). if l = ''Seqspecs'' then normalize_seqspec v else v) (zip merged_cols r)"

definition final_proj :: "cell list \<Rightarrow> cell list" where
  \<comment> \<open>line 113 on one merged row\<close>
  "final_proj r = map (cell_of merged_cols r) final_cols"

definition reads :: "string \<Rightarrow> dataframe \<Rightarrow> cell list list" where
  \<comment> \<open>the rows of the input whose read type is \<open>t\<close> (lines 79, 81 and 82)\<close>
  "reads t df = filter (\<lambda>r. cell_of (columns df) r ''Illumina Read Type'' = Str t) (rows df)"

definition wide_row :: "string list \<Rightarrow> cell list \<Rightarrow> cell \<Rightarrow> cell \<Rightarrow> cell \<Rightarrow> cell \<Rightarrow> cell list" where
  \<comment> \<open>an output row: the two path and md5sum pairs, then the key cells of the input row \<open>k\<close>\<close>
  "wide_row cs k p1 m1 p2 m2 =
     [p1, m1, p2, m2, cell_of cs k ''measurement_sets'', cell_of cs k ''Lane'',
      cell_of cs k ''file_modality'', cell_of cs k ''Flowcell ID'',
      normalize_seqspec (cell_of cs k ''Seqspecs'')]"

definition out_key :: "string list \<Rightarrow> cell list \<Rightarrow> cell list" where
  \<comment> \<open>the key (measurement_sets, Lane, file_modality, Flowcell ID, Seqspecs) of the output rows made from the input row \<open>r\<close>\<close>
  "out_key cs r = [cell_of cs r ''measurement_sets'', cell_of cs r ''Lane'',
     cell_of cs r ''file_modality'', cell_of cs r ''Flowcell ID'',
     normalize_seqspec (cell_of cs r ''Seqspecs'')]"

section \<open>Example tables\<close>

definition example_files :: dataframe where
  \<comment> \<open>a lane with both mates, a lane with only R1 and an unparsable seqspec, an index read\<close>
  "example_files =
     \<lparr>columns = [''ID'', ''Accession'', ''Illumina Read Type'', ''Lane'', ''MD5sum'',
                 ''Flowcell ID'', ''Seqspecs'', ''measurement_sets'', ''file_modality''],
      rows = [[Str ''/sequence-files/A/'', Str ''A'', Str ''R1'', Num 2, Str ''m1'', Str ''FC'',
               Str ''/configuration-files/XYZ123/'', Str ''MS'', Str ''scRNA''],
              [Str ''/sequence-files/B/'', Str ''B'', Str ''R2'', Num 2, Str ''m2'', Str ''FC'',
               Str ''/configuration-files/XYZ123/'', Str ''MS'', Str ''scRNA''],
              [Str ''/sequence-files/C/'', Str ''C'', Str ''R1'', Num 1, Str ''m3'', NaN,
               Str ''abc'', Str ''MS'', Str ''gRNA''],
              [Str ''/sequence-files/D/'', Str ''D'', Str ''I1'', Num 1, Str ''m4'', NaN,
               NaN, Str ''MS'', Str ''gRNA'']]\<rparr>"

definition example_pairs :: dataframe where
  \<comment> \<open>what the Reshaper makes of \<open>example_files\<close>\<close>
  "example_pairs =
     \<lparr>columns = [''R1_path'', ''R1_md5sum'', ''R2_path'', ''R2_md5sum'', ''measurement_sets'',
                 ''Lane'', ''file_modality'', ''Flowcell ID'', ''Seqspecs''],
      rows = [[Str ''C'', Str ''m3'', NaN, NaN, Str ''MS'', Num 1, Str ''gRNA'', NaN, NaN],
              [Str ''A'', Str ''m1'', Str ''B'', Str ''m2'', Str ''MS'', Num 2, Str ''scRNA'',
               Str ''FC'', Str ''XYZ123'']]\<rparr>"

definition example_links :: dataframe where
  \<comment> \<open>an analysis set without measurement sets\<close>
  "example_links =
     \<lparr>columns = [''analysis_set_id'', ''measurement_sets'', ''associated_auxiliary_sets''],
      rows = []\<rparr>"

definition example_duplicates :: dataframe where
  \<comment> \<open>two R1 files of the same lane, flowcell and seqspec\<close>
  "example_duplicates =
     \<lparr>columns = [''Accession'', ''Illumina Read Type'', ''Lane'', ''MD5sum'', ''Flowcell ID'',
                 ''Seqspecs'', ''measurement_sets'', ''file_modality''],
      rows = [[Str ''A'', Str ''R1'', Num 1, Str ''m1'', Str ''FC'',
               Str ''/configuration-files/S1/'', Str ''MS'', Str ''scRNA''],
              [Str ''B'', Str ''R1'', Num 1, Str ''m2'', Str ''FC'',
               Str ''/configuration-files/S1/'', Str ''MS'', Str ''scRNA'']]\<rparr>"

definition example_duplicate_pairs :: dataframe where
  \<comment> \<open>what the Reshaper makes of \<open>example_duplicates\<close>\<close>
  "example_duplicate_pairs =
     \<lparr>columns = [''R1_path'', ''R1_md5sum'', ''R2_path'', ''R2_md5sum'', ''measurement_sets'',
                 ''Lane'', ''file_modality'', ''Flowcell ID'', ''Seqspecs''],
      rows = [[Str ''A'', Str ''m1'', NaN, NaN, Str ''MS'', Num 1, Str ''scRNA'', Str ''FC'', Str ''S1''],
              [Str ''B'', Str ''m2'', NaN, NaN, Str ''MS'', Num 1, Str ''scRNA'', Str ''FC'', Str ''S1'']]\<rparr>"

definition example_body :: string where
  \<comment> \<open>a response body: a timestamp line, the header, and a data row that starts with \<^verbatim>\<open>20\<close>\<close>
  "example_body = ''2024-05-01T12:00:00'' @ [CHR 0x0A] @ ''ID'' @ [CHR 0x09] @ ''Lane'' @ [CHR 0x0A]
     @ ''2024A'' @ [CHR 0x09] @ ''1'' @ [CHR 0x0A]"

definition example_http :: "string \<Rightarrow> string option" where
  \<comment> \<open>a transport that answers every request with \<open>example_body\<close>\<close>
  "example_http url = Some example_body"

definition example_parser :: "string \<Rightarrow> error + dataframe" where
  \<comment> \<open>a parser stub that returns a header with untrimmed labels\<close>
  "example_parser text = Inr \<lparr>columns = ['' ID'', ''Lane ''], rows = []\<rparr>"

definition example_table :: dataframe where
  \<comment> \<open>the table \<open>example_fetch\<close> returns\<close>
  "example_table = \<lparr>columns = [''Accession''], rows = [[Str ''F'']]\<rparr>"

definition example_fetch :: "string \<Rightarrow> error + dataframe" where
  \<comment> \<open>a catalog that answers every request with one file\<close>
  "example_fetch url = Inr \<lparr>columns = [''Accession''], rows = [[Str ''F'']]\<rparr>"

definition example_three_aux :: dataframe where
  \<comment> \<open>a link with three auxiliary sets, the third not a path\<close>
  "example_three_aux =
     \<lparr>columns = [''analysis_set_id'', ''measurement_sets'', ''associated_auxiliary_sets''],
      rows = [[Str ''IGVFDS0001'', Str ''IGVFDS0002'',
               Str ''/auxiliary-sets/IGVFDS0003/, /auxiliary-sets/IGVFDS0004/, IGVFDS0005'']]\<rparr>"

definition example_bad_aux :: dataframe where
  \<comment> \<open>a link whose only auxiliary reference has no \<^verbatim>\<open>/\<close>\<close>
  "example_bad_aux =
     \<lparr>columns = [''analysis_set_id'', ''measurement_sets'', ''associated_auxiliary_sets''],
      rows = [[Str ''IGVFDS0001'', Str ''IGVFDS0002'', Str ''IGVFDS0003'']]\<rparr>"

definition example_catalog :: "string \<Rightarrow> error + dataframe" where
  \<comment> \<open>a catalog that knows one measurement set and two auxiliary sets, each with one file\<close>
  "example_catalog url =
     (if url = measurement_url ''IGVFDS0002''
      then Inr \<lparr>columns = [''Accession''], rows = [[Str ''M'']]\<rparr>
      else if url = auxiliary_url ''IGVFDS0003''
      then Inr \<lparr>columns = [''Accession''], rows = [[Str ''G'']]\<rparr>
      else if url = auxiliary_url ''IGVFDS0004''
      then Inr \<lparr>columns = [''Accession''], rows = [[Str ''H'']]\<rparr>
      else Inl SystemExit)"

definition example_with_path :: dataframe where
  \<comment> \<open>two mates of a lane, in a table that already has a column \<^verbatim>\<open>R1_path\<close>\<close>
  "example_with_path =
     \<lparr>columns = [''Accession'', ''Illumina Read Type'', ''Lane'', ''MD5sum'', ''Flowcell ID'',
                 ''Seqspecs'', ''measurement_sets'', ''file_modality'', ''R1_path''],
      rows = [[Str ''A'', Str ''R1'', Num 1, Str ''m1'', Str ''FC'',
               Str ''/configuration-files/S1/'', Str ''MS'', Str ''scRNA'', Str ''old''],
              [Str ''B'', Str ''R2'', Num 1, Str ''m2'', Str ''FC'',
               Str ''/configuration-files/S1/'', Str ''MS'', Str ''scRNA'', Str ''old2'']]\<rparr>"

section \<open>Properties of the regular expression and of the seqspec normalisation\<close>

lemma match_at_SomeD:
  assumes "match_at pre s = Some g"
  shows "\<exists>b. s = pre @ g @ CHR ''/'' # b" and "g \<noteq> []" and "CHR ''/'' \<notin> set g"
proof -
  let ?rest = "drop (length pre) s"
  from assms have sw: "take (length pre) s = pre"
    and g: "g = takeWhile (\<lambda>c. c \<noteq> CHR ''/'') ?rest"
    and ne: "g \<noteq> []" and len: "length g < length ?rest"
    by (auto simp: match_at_def starts_with_def Let_def split: if_splits)
  show "g \<noteq> []" by (rule ne)
  show "CHR ''/'' \<notin> set g"
    using g by (auto dest: set_takeWhileD)
  have rest: "?rest = g @ dropWhile (\<lambda>c. c \<noteq> CHR ''/'') ?rest"
    using g by simp
  define d where "d = dropWhile (\<lambda>c. c \<noteq> CHR ''/'') ?rest"
  have rest': "?rest = g @ d" using rest by (simp add: d_def)
  from len rest' have dne: "d \<noteq> []" by (cases d) auto
  then have "\<not> (hd d \<noteq> CHR ''/'')"
    unfolding d_def by (rule hd_dropWhile)
  with dne obtain b where b: "d = CHR ''/'' # b" by (cases d) auto
  have "s = pre @ ?rest" using sw by (metis append_take_drop_id)
  with rest' b have "s = pre @ g @ CHR ''/'' # b" by simp
  then show "\<exists>b. s = pre @ g @ CHR ''/'' # b" by blast
qed

lemma match_at_intro:
  assumes "g \<noteq> []" "CHR ''/'' \<notin> set g"
  shows "match_at pre (pre @ g @ CHR ''/'' # b) = Some g"
proof -
  have "takeWhile (\<lambda>c. c \<noteq> CHR ''/'') (g @ CHR ''/'' # b) = g"
    using assms(2) by (subst takeWhile_append2) auto
  then show ?thesis
    using assms(1) by (simp add: match_at_def starts_with_def Let_def)
qed

lemma search_SomeD:
  "search pre s = Some g \<Longrightarrow> \<exists>a b. s = a @ pre @ g @ CHR ''/'' # b \<and> g \<noteq> [] \<and> CHR ''/'' \<notin> set g
     \<and> (\<forall>k<length a. match_at pre (drop k s) = None)"
proof (induction s)
  case Nil
  then have m: "match_at pre [] = Some g" by simp
  from match_at_SomeD[OF m] show ?case by auto
next
  case (Cons c cs)
  show ?case
  proof (cases "match_at pre (c # cs)")
    case (Some g')
    with Cons.prems have m: "match_at pre (c # cs) = Some g" by simp
    from match_at_SomeD[OF m] obtain b where "c # cs = [] @ pre @ g @ CHR ''/'' # b" "g \<noteq> []" "CHR ''/'' \<notin> set g"
      by auto
    then show ?thesis by (metis length_0_conv not_less_zero list.size(3))
  next
    case None
    with Cons.prems have "search pre cs = Some g" by simp
    from Cons.IH[OF this] obtain a b where ab: "cs = a @ pre @ g @ CHR ''/'' # b" "g \<noteq> []" "CHR ''/'' \<notin> set g"
      "\<forall>k<length a. match_at pre (drop k cs) = None" by blast
    have "\<forall>k<length (c # a). match_at pre (drop k (c # cs)) = None"
    proof (intro allI impI)
      fix k assume "k < length (c # a)"
      then show "match_at pre (drop k (c # cs)) = None"
        using None ab(4) by (cases k) auto
    qed
    moreover have "c # cs = (c # a) @ pre @ g @ CHR ''/'' # b" using ab(1) by simp
    ultimately show ?thesis using ab(2,3) by blast
  qed
qed

lemma search_leftmost:
  assumes "g \<noteq> []" "CHR ''/'' \<notin> set g"
    and "\<forall>k<length a. match_at pre (drop k (a @ pre @ g @ CHR ''/'' # b)) = None"
  shows "search pre (a @ pre @ g @ CHR ''/'' # b) = Some g"
  using assms(3)
proof (induction a)
  case Nil
  have "match_at pre (pre @ g @ CHR ''/'' # b) = Some g" by (rule match_at_intro[OF assms(1,2)])
  then show ?case by (cases "pre @ g @ CHR ''/'' # b") auto
next
  case (Cons c a)
  from Cons.prems have "match_at pre (drop 0 ((c # a) @ pre @ g @ CHR ''/'' # b)) = None" by blast
  then have n: "match_at pre (c # a @ pre @ g @ CHR ''/'' # b) = None" by simp
  have "\<forall>k<length a. match_at pre (drop k (a @ pre @ g @ CHR ''/'' # b)) = None"
  proof (intro allI impI)
    fix k assume "k < length a"
    then have "Suc k < length (c # a)" by simp
    with Cons.prems have "match_at pre (drop (Suc k) ((c # a) @ pre @ g @ CHR ''/'' # b)) = None" by blast
    then show "match_at pre (drop k (a @ pre @ g @ CHR ''/'' # b)) = None" by simp
  qed
  from Cons.IH[OF this] n show ?case by simp
qed

lemma search_no_slash: "CHR ''/'' \<notin> set s \<Longrightarrow> search pre s = None"
proof (rule ccontr)
  assume a: "CHR ''/'' \<notin> set s" and "search pre s \<noteq> None"
  then obtain g where "search pre s = Some g" by auto
  from search_SomeD[OF this] a show False by auto
qed

lemma search_exists:
  assumes "g \<noteq> []" "CHR ''/'' \<notin> set g"
  shows "search pre (a @ pre @ g @ CHR ''/'' # b) \<noteq> None"
proof (induction a)
  case Nil
  have "match_at pre (pre @ g @ CHR ''/'' # b) = Some g" by (rule match_at_intro[OF assms(1,2)])
  then show ?case by (cases "pre @ g @ CHR ''/'' # b") auto
next
  case (Cons c a)
  then show ?case by (auto split: option.splits)
qed

lemma digit_char_in: "n < 10 \<Longrightarrow> digit_char n \<in> set ''0123456789''"
  unfolding digit_char_def by (rule nth_mem) simp

lemma set_digits: "set (digits n) \<subseteq> set ''0123456789''"
proof (induction n rule: digits.induct)
  case (1 n)
  show ?case
  proof (cases "n < 10")
    case True
    then show ?thesis using digit_char_in[of n] by (subst digits.simps) simp
  next
    case False
    have "n mod 10 < 10" by simp
    from digit_char_in[OF this] 1[OF False] False show ?thesis
      by (subst digits.simps) simp
  qed
qed

lemma digits_nonempty: "digits n \<noteq> []"
  by (subst digits.simps) simp

lemma slash_not_digit: "CHR ''/'' \<notin> set (digits n)"
proof -
  have "CHR ''/'' \<notin> set ''0123456789''" by simp
  with set_digits[of n] show ?thesis by blast
qed

lemma n_not_digit: "CHR ''n'' \<notin> set (digits n)"
proof -
  have "CHR ''n'' \<notin> set ''0123456789''" by simp
  with set_digits[of n] show ?thesis by blast
qed

lemma py_str_Num_facts:
  "py_str (Num i) \<noteq> []" "py_str (Num i) \<noteq> ''nan''" "CHR ''/'' \<notin> set (py_str (Num i))"
proof -
  show "py_str (Num i) \<noteq> []" by (simp add: py_str_def digits_nonempty)
  show "CHR ''/'' \<notin> set (py_str (Num i))"
    by (simp add: py_str_def slash_not_digit)
  show "py_str (Num i) \<noteq> ''nan''"
  proof
    assume e: "py_str (Num i) = ''nan''"
    show False
    proof (cases "i < 0")
      case True
      with e show False by (simp add: py_str_def)
    next
      case False
      with e have "digits (nat i) = ''nan''" by (simp add: py_str_def)
      then have "CHR ''n'' \<in> set (digits (nat i))" by simp
      with n_not_digit show False by blast
    qed
  qed
qed

lemma normalize_seqspec_cases:
  "normalize_seqspec NaN = Str []"
  "normalize_seqspec (Str []) = Str []"
  "normalize_seqspec (Str ''nan'') = Str []"
  "normalize_seqspec (Num i) = NaN"
  "s \<noteq> [] \<Longrightarrow> s \<noteq> ''nan'' \<Longrightarrow> normalize_seqspec (Str s) = (case search cfg_prefix s of Some g \<Rightarrow> Str g | None \<Rightarrow> NaN)"
proof -
  show "normalize_seqspec NaN = Str []" "normalize_seqspec (Str []) = Str []" "normalize_seqspec (Str ''nan'') = Str []"
    by (simp_all add: normalize_seqspec_def astype_str_replace_nan_def extract_nonempty_def py_str_def)
  show "normalize_seqspec (Num i) = NaN"
    using py_str_Num_facts[of i] search_no_slash[of "py_str (Num i)" cfg_prefix]
    by (simp add: normalize_seqspec_def astype_str_replace_nan_def extract_nonempty_def str_extract_def)
  show "s \<noteq> [] \<Longrightarrow> s \<noteq> ''nan'' \<Longrightarrow> normalize_seqspec (Str s) = (case search cfg_prefix s of Some g \<Rightarrow> Str g | None \<Rightarrow> NaN)"
    by (simp add: normalize_seqspec_def astype_str_replace_nan_def extract_nonempty_def str_extract_def py_str_def)
qed


lemma search_Some_iff:
  "search pre s = Some g \<longleftrightarrow>
     (\<exists>a b. s = a @ pre @ g @ CHR ''/'' # b \<and> g \<noteq> [] \<and> CHR ''/'' \<notin> set g
        \<and> (\<forall>k<length a. match_at pre (drop k s) = None))"
proof
  assume "search pre s = Some g"
  then show "\<exists>a b. s = a @ pre @ g @ CHR ''/'' # b \<and> g \<noteq> [] \<and> CHR ''/'' \<notin> set g
        \<and> (\<forall>k<length a. match_at pre (drop k s) = None)"
    by (rule search_SomeD)
next
  assume "\<exists>a b. s = a @ pre @ g @ CHR ''/'' # b \<and> g \<noteq> [] \<and> CHR ''/'' \<notin> set g
        \<and> (\<forall>k<length a. match_at pre (drop k s) = None)"
  then obtain a b where s: "s = a @ pre @ g @ CHR ''/'' # b" and g: "g \<noteq> []" "CHR ''/'' \<notin> set g"
    and n: "\<forall>k<length a. match_at pre (drop k s) = None" by blast
  from n have "\<forall>k<length a. match_at pre (drop k (a @ pre @ g @ CHR ''/'' # b)) = None"
    unfolding s .
  from search_leftmost[OF g this] show "search pre s = Some g" unfolding s .
qed

lemma search_None_iff:
  "search pre s = None \<longleftrightarrow>
     \<not> (\<exists>a g b. s = a @ pre @ g @ CHR ''/'' # b \<and> g \<noteq> [] \<and> CHR ''/'' \<notin> set g)"
proof
  assume n: "search pre s = None"
  show "\<not> (\<exists>a g b. s = a @ pre @ g @ CHR ''/'' # b \<and> g \<noteq> [] \<and> CHR ''/'' \<notin> set g)"
  proof
    assume "\<exists>a g b. s = a @ pre @ g @ CHR ''/'' # b \<and> g \<noteq> [] \<and> CHR ''/'' \<notin> set g"
    then obtain a g b where "s = a @ pre @ g @ CHR ''/'' # b" "g \<noteq> []" "CHR ''/'' \<notin> set g"
      by blast
    with search_exists[of g pre a b] n show False by simp
  qed
next
  assume n: "\<not> (\<exists>a g b. s = a @ pre @ g @ CHR ''/'' # b \<and> g \<noteq> [] \<and> CHR ''/'' \<notin> set g)"
  show "search pre s = None"
  proof (cases "search pre s")
    case None
    then show ?thesis .
  next
    case (Some g)
    from search_SomeD[OF this] n show ?thesis by blast
  qed
qed

lemma normalize_seqspec_eq:
  "normalize_seqspec c =
     (if c = NaN \<or> c = Str [] \<or> c = Str ''nan'' then Str []
      else (case c of Str s \<Rightarrow> (case search cfg_prefix s of Some g \<Rightarrow> Str g | None \<Rightarrow> NaN)
            | Num i \<Rightarrow> NaN | NaN \<Rightarrow> Str []))"
proof (cases c)
  case (Num i)
  then show ?thesis by (simp add: normalize_seqspec_cases)
next
  case (Str s)
  then show ?thesis by (auto simp: normalize_seqspec_cases)
next
  case NaN
  then show ?thesis by (simp add: normalize_seqspec_cases)
qed

text \<open>
  Claim C1, as amended. The normalisation of a Seqspecs cell maps a missing value, the empty
  string and the text \<^verbatim>\<open>nan\<close> to the empty string. Every other string is mapped to
  the group of the leftmost match of \<^verbatim>\<open>/configuration-files/([^/]+)/\<close>, that is to
  the non-empty, slash-free segment between \<^verbatim>\<open>/configuration-files/\<close> and the next
  \<^verbatim>\<open>/\<close>, and to \<^verbatim>\<open>NaN\<close> when there is no such segment; a number is mapped to
  \<^verbatim>\<open>NaN\<close>. So the column is free of nulls only when every non-empty value matches.
\<close>

theorem seqspec_normalization:
  "normalize_seqspec c =
     (if c = NaN \<or> c = Str [] \<or> c = Str ''nan'' then Str []
      else (case c of Str s \<Rightarrow> (case search cfg_prefix s of Some g \<Rightarrow> Str g | None \<Rightarrow> NaN)
            | Num i \<Rightarrow> NaN | NaN \<Rightarrow> Str []))
   \<and> (search cfg_prefix s = Some g \<longleftrightarrow>
        (\<exists>a b. s = a @ cfg_prefix @ g @ CHR ''/'' # b \<and> g \<noteq> [] \<and> CHR ''/'' \<notin> set g
           \<and> (\<forall>k<length a. match_at cfg_prefix (drop k s) = None)))
   \<and> (search cfg_prefix s = None \<longleftrightarrow>
        \<not> (\<exists>a g b. s = a @ cfg_prefix @ g @ CHR ''/'' # b \<and> g \<noteq> [] \<and> CHR ''/'' \<notin> set g))"
  by (intro conjI) (rule normalize_seqspec_eq, rule search_Some_iff, rule search_None_iff)

theorem seqspec_normalization_witness:
  "normalize_seqspec (Str ''x/configuration-files/XYZ123/'') = Str ''XYZ123''
   \<and> search cfg_prefix ''x/configuration-files/XYZ123/'' = Some ''XYZ123''"
proof -
  let ?s = "''x/configuration-files/XYZ123/''"
  have n: "\<forall>k<length ''x''. match_at cfg_prefix (drop k ?s) = None"
    by (simp add: match_at_def starts_with_def cfg_prefix_def)
  have d: "?s = ''x'' @ cfg_prefix @ ''XYZ123'' @ CHR ''/'' # []"
    by (simp add: cfg_prefix_def)
  have g: "''XYZ123'' \<noteq> []" "CHR ''/'' \<notin> set ''XYZ123''" by simp_all
  from seqspec_normalization[of "Str ?s" ?s "''XYZ123''"] d g n
  have s: "search cfg_prefix ?s = Some ''XYZ123''" by blast
  from seqspec_normalization[of "Str ?s" ?s "''XYZ123''"] s
  have "normalize_seqspec (Str ?s) = Str ''XYZ123''" by simp
  with s show ?thesis by blast
qed

text \<open>
  The claim as stated (no value of the Seqspecs column is null after the normalisation) fails
  for a table whose only file has the seqspec value \<^verbatim>\<open>abc\<close>: the Seqspecs cell of the
  output row is \<^verbatim>\<open>NaN\<close>.
\<close>

theorem seqspec_never_null_counterexample:
  "rearrange_sequence_files
     \<lparr>columns = [''Accession'', ''Illumina Read Type'', ''Lane'', ''MD5sum'', ''Flowcell ID'',
                 ''Seqspecs'', ''measurement_sets'', ''file_modality''],
      rows = [[Str ''A'', Str ''R1'', Num 2, Str ''m1'', Str ''FC'', Str ''abc'', Str ''MS'',
               Str ''scRNA'']]\<rparr>
   = Inr \<lparr>columns = final_cols,
          rows = [[Str ''A'', Str ''m1'', NaN, NaN, Str ''MS'', Num 2, Str ''scRNA'', Str ''FC'',
                   NaN]]\<rparr>"
  by code_simp

section \<open>Properties of the Reshaper\<close>

lemma map_of_zip_map:
  "map_of (zip cs (map g cs)) c = (if c \<in> set cs then Some (g c) else None)"
  by (induction cs) auto

lemma cell_of_map: "c \<in> set cs \<Longrightarrow> cell_of cs (map g cs) c = g c"
  by (simp add: cell_of_def map_of_zip_map)

lemma cell_of_absent: "c \<notin> set cs \<Longrightarrow> cell_of cs r c = NaN"
proof -
  assume "c \<notin> set cs"
  then have "c \<notin> fst ` set (zip cs r)" by (auto dest: set_zip_leftD)
  then have "map_of (zip cs r) c = None" by (simp add: map_of_eq_None_iff)
  then show ?thesis by (simp add: cell_of_def)
qed

lemma key_of_select:
  "set ks \<subseteq> set fs \<Longrightarrow> key_of ks fs (map (cell_of cs r) fs) = key_of ks cs r"
  by (auto simp: key_of_def cell_of_map)

lemma filter_eq_singleton: "distinct xs \<Longrightarrow> x \<in> set xs \<Longrightarrow> filter (\<lambda>l. l = x) xs = [x]"
proof (induction xs)
  case Nil
  then show ?case by simp
next
  case (Cons y ys)
  show ?case
  proof (cases "y = x")
    case True
    with Cons.prems have "\<forall>l \<in> set ys. l \<noteq> x" by auto
    then have "filter (\<lambda>l. l = x) ys = []" by (simp add: filter_empty_conv)
    with True show ?thesis by simp
  next
    case False
    with Cons show ?thesis by simp
  qed
qed

lemma cells_under_absent: "c \<notin> set cs \<Longrightarrow> cells_under cs r c = []"
proof -
  assume "c \<notin> set cs"
  then have "\<forall>x \<in> set (zip cs r). \<not> (case x of (l, v) \<Rightarrow> l = c)"
    by (auto dest: set_zip_leftD)
  then show ?thesis by (simp add: cells_under_def filter_empty_conv)
qed

lemma cells_under_single:
  "distinct cs \<Longrightarrow> c \<in> set cs \<Longrightarrow> length r = length cs \<Longrightarrow>
     cells_under cs r c = [cell_of cs r c]"
proof (induction cs arbitrary: r)
  case Nil
  then show ?case by simp
next
  case (Cons x xs)
  from Cons.prems(3) obtain v vs where r: "r = v # vs" and len: "length vs = length xs"
    by (cases r) auto
  show ?case
  proof (cases "x = c")
    case True
    with Cons.prems(1) have "c \<notin> set xs" by simp
    from cells_under_absent[OF this, of vs] have "filter (\<lambda>(l, v). l = c) (zip xs vs) = []"
      by (simp add: cells_under_def)
    with True show ?thesis by (simp add: r cells_under_def cell_of_def)
  next
    case False
    with Cons.prems have "distinct xs" "c \<in> set xs" by auto
    from Cons.IH[OF this len] False show ?thesis
      by (simp add: r cells_under_def cell_of_def)
  qed
qed

lemma concat_singletons: "concat (map (\<lambda>c. [g c]) cs) = map g cs"
  by (induction cs) simp_all

lemma select_columns_distinct:
  assumes d: "distinct (columns df)" and len: "\<forall>r \<in> set (rows df). length r = length (columns df)"
  shows "select_columns cs df =
     (if set cs \<subseteq> set (columns df)
      then Inr \<lparr>columns = cs, rows = map (\<lambda>r. map (cell_of (columns df) r) cs) (rows df)\<rparr>
      else Inl KeyError)"
proof (cases "set cs \<subseteq> set (columns df)")
  case False
  then show ?thesis by (simp add: select_columns_def)
next
  case True
  have "map (\<lambda>c. filter (\<lambda>l. l = c) (columns df)) cs = map (\<lambda>c. [c]) cs"
    by (rule map_cong) (use True filter_eq_singleton[OF d] in auto)
  then have "concat (map (\<lambda>c. filter (\<lambda>l. l = c) (columns df)) cs) = concat (map (\<lambda>c. [c]) cs)"
    by (rule arg_cong)
  also have "\<dots> = map (\<lambda>c. c) cs" by (rule concat_singletons)
  finally have c: "concat (map (\<lambda>c. filter (\<lambda>l. l = c) (columns df)) cs) = cs" by simp
  have r: "concat (map (cells_under (columns df) r) cs) = map (cell_of (columns df) r) cs"
    if "r \<in> set (rows df)" for r
  proof -
    from that len have l: "length r = length (columns df)" by blast
    have "map (cells_under (columns df) r) cs = map (\<lambda>c. [cell_of (columns df) r c]) cs"
      by (rule map_cong) (use True cells_under_single[OF d _ l] in auto)
    then have "concat (map (cells_under (columns df) r) cs)
        = concat (map (\<lambda>c. [cell_of (columns df) r c]) cs)"
      by (rule arg_cong)
    also have "\<dots> = map (cell_of (columns df) r) cs" by (rule concat_singletons)
    finally show ?thesis .
  qed
  have "map (\<lambda>r. concat (map (cells_under (columns df) r) cs)) (rows df)
        = map (\<lambda>r. map (cell_of (columns df) r) cs) (rows df)"
    by (rule map_cong) (use r in auto)
  with c True show ?thesis by (simp add: select_columns_def)
qed

lemma select_columns_labels:
  assumes "select_columns fs d = Inr out"
  shows "set (columns out) \<subseteq> set fs" and "fs \<noteq> [] \<Longrightarrow> columns out \<noteq> []"
proof -
  from assms have sub: "set fs \<subseteq> set (columns d)"
    and out: "columns out = concat (map (\<lambda>c. filter (\<lambda>l. l = c) (columns d)) fs)"
    by (auto simp: select_columns_def split: if_splits)
  show "set (columns out) \<subseteq> set fs" unfolding out by auto
  show "columns out \<noteq> []" if "fs \<noteq> []"
  proof -
    from that obtain f fs' where fs: "fs = f # fs'" by (cases fs) auto
    with sub have "f \<in> set (columns d)" by simp
    then have "filter (\<lambda>l. l = f) (columns d) \<noteq> []" by (simp add: filter_empty_conv)
    then show ?thesis unfolding out fs by simp
  qed
qed

lemma rearrange_nonempty_shape:
  assumes "rearrange_sequence_files df = Inr out" and "\<not> is_empty df"
  shows "\<exists>m d. sort_values sort_cols m = Inr d \<and> select_columns final_cols d = Inr out"
  using assms
  by (auto simp: rearrange_sequence_files_def Let_def split: sum.splits if_splits)

lemma sort_cols_final: "set sort_cols \<subseteq> set final_cols"
  by (simp add: sort_cols_def final_cols_def)

lemma rearrange_empty: "is_empty df \<Longrightarrow> rearrange_sequence_files df = Inr empty_frame"
  by (simp add: rearrange_sequence_files_def)

lemma read_type_not_final: "''Illumina Read Type'' \<notin> set final_cols"
  by (simp add: final_cols_def)

lemma rearrange_columns:
  assumes "rearrange_sequence_files df = Inr out"
  shows "out = empty_frame \<or> (columns out \<noteq> [] \<and> ''Illumina Read Type'' \<notin> set (columns out))"
proof (cases "is_empty df")
  case True
  with assms show ?thesis by (simp add: rearrange_empty)
next
  case False
  from rearrange_nonempty_shape[OF assms False] obtain m d where
    sel: "select_columns final_cols d = Inr out" by blast
  have "final_cols \<noteq> []" by (simp add: final_cols_def)
  from select_columns_labels(2)[OF sel this] select_columns_labels(1)[OF sel] read_type_not_final
  show ?thesis by blast
qed

lemma rearrange_without_read_type:
  assumes "columns out \<noteq> []" and "''Illumina Read Type'' \<notin> set (columns out)"
  shows "rearrange_sequence_files out = (if rows out = [] then Inr empty_frame else Inl KeyError)"
proof (cases "rows out = []")
  case True
  then have "is_empty out" by (simp add: is_empty_def)
  with True show ?thesis by (simp add: rearrange_empty)
next
  case False
  with assms(1) have ne: "\<not> is_empty out" by (simp add: is_empty_def)
  have "get_column out ''Illumina Read Type'' = Inl KeyError"
    using assms(2) by (simp add: get_column_def)
  with ne False show ?thesis by (simp add: rearrange_sequence_files_def)
qed

text \<open>
  Claim C6. The Reshaper returns the empty table without columns for an empty input, by its
  first branch, and does not raise. A table of links without rows makes the Enumerator issue
  no request and return the empty table without columns, which the Reshaper maps to the
  empty table without columns.
\<close>

theorem empty_input:
  "(is_empty df \<longrightarrow> rearrange_sequence_files df = Inr empty_frame)
   \<and> (rows result = [] \<longrightarrow>
        get_sequence_files fetch result = ([], Inr empty_frame)
        \<and> sample_file fetch result = Inr empty_frame)"
  by (simp add: rearrange_empty get_sequence_files_def sample_file_def is_empty_def empty_frame_def)

theorem empty_input_witness:
  "is_empty empty_frame \<and> rearrange_sequence_files empty_frame = Inr empty_frame
   \<and> rows example_links = []
   \<and> get_sequence_files (\<lambda>url. Inl SystemExit) example_links = ([], Inr empty_frame)
   \<and> sample_file (\<lambda>url. Inl SystemExit) example_links = Inr empty_frame"
proof -
  have e: "is_empty empty_frame" by (simp add: is_empty_def empty_frame_def)
  have r: "rows example_links = []" by (simp add: example_links_def)
  from empty_input[of empty_frame example_links "\<lambda>url. Inl SystemExit"] e r
  show ?thesis by simp
qed

text \<open>
  Claim C7, as amended. Applying the Reshaper to its own output gives the empty table without
  columns when that output has no rows, and raises \<^verbatim>\<open>KeyError\<close> when it has rows: the
  output has no column \<^verbatim>\<open>Illumina Read Type\<close>, which line 79 reads.
\<close>

theorem reapplication:
  assumes "rearrange_sequence_files df = Inr out"
  shows "rearrange_sequence_files out = (if rows out = [] then Inr empty_frame else Inl KeyError)"
proof -
  from rearrange_columns[OF assms] show ?thesis
  proof
    assume "out = empty_frame"
    then show ?thesis by (simp add: rearrange_empty is_empty_def empty_frame_def)
  next
    assume "columns out \<noteq> [] \<and> ''Illumina Read Type'' \<notin> set (columns out)"
    then show ?thesis by (intro rearrange_without_read_type) simp_all
  qed
qed

theorem reapplication_witness:
  "rearrange_sequence_files example_files = Inr example_pairs
   \<and> rearrange_sequence_files example_pairs =
       (if rows example_pairs = [] then Inr empty_frame else Inl KeyError)"
proof -
  have h: "rearrange_sequence_files example_files = Inr example_pairs" by code_simp
  from reapplication[OF h] h show ?thesis by simp
qed

text \<open>
  The claim as stated fails: \<open>example_files\<close> is not empty, and the Reshaper applied to its
  own output for it raises instead of returning a table without rows.
\<close>

theorem reapplication_counterexample:
  "\<not> is_empty example_files
   \<and> rearrange_sequence_files example_files = Inr example_pairs
   \<and> rearrange_sequence_files example_pairs = Inl KeyError"
  by code_simp

section \<open>What the Reshaper computes\<close>

lemma renamed_simps:
  "renamed p m ''Accession'' = p" "renamed p m ''MD5sum'' = m"
  "c \<noteq> ''Accession'' \<Longrightarrow> c \<noteq> ''MD5sum'' \<Longrightarrow> renamed p m c = c"
  by (simp_all add: renamed_def)

lemma map_of_zip_rename:
  "inj_on f (insert c (set cs)) \<Longrightarrow> map_of (zip (map f cs) r) (f c) = map_of (zip cs r) c"
proof (induction cs arbitrary: r)
  case Nil
  then show ?case by simp
next
  case (Cons x xs)
  show ?case
  proof (cases r)
    case Nil
    then show ?thesis by simp
  next
    case (Cons v vs)
    from Cons.prems have inj: "inj_on f (insert c (set xs))"
      by (rule inj_on_subset) auto
    from Cons.prems have eq: "f c = f x \<longleftrightarrow> c = x"
      by (auto simp: inj_on_def)
    show ?thesis using Cons.IH[OF inj, of vs] eq Cons by auto
  qed
qed

lemma cell_of_rename:
  "inj_on f (insert c (set cs)) \<Longrightarrow> cell_of (map f cs) r (f c) = cell_of cs r c"
  by (simp add: cell_of_def map_of_zip_rename)

lemma inj_on_renamed:
  assumes "p \<notin> S" "m \<notin> S" "p \<noteq> m"
  shows "inj_on (renamed p m) S"
proof (rule inj_onI)
  fix x y assume x: "x \<in> S" and y: "y \<in> S" and e: "renamed p m x = renamed p m y"
  have r: "\<And>z. z \<in> S \<Longrightarrow> renamed p m z = (if z = ''Accession'' then p else if z = ''MD5sum'' then m else z)"
    by (simp add: renamed_def)
  from e x y assms show "x = y"
    by (simp add: r split: if_splits)
qed

lemma r1_cols_renamed: "r1_cols = map (renamed ''R1_path'' ''R1_md5sum'') side_labels"
  by (simp add: r1_cols_def side_labels_def renamed_def)

lemma r2_cols_renamed: "r2_cols = map (renamed ''R2_path'' ''R2_md5sum'') side_labels"
  by (simp add: r2_cols_def side_labels_def renamed_def)

lemma side_select:
  assumes wf: "well_formed df" and p: "p \<notin> set side_labels \<union> set (columns df)"
    and m: "m \<notin> set side_labels \<union> set (columns df)" and pm: "p \<noteq> m"
  shows "select_columns (map (renamed p m) side_labels)
           (rename_columns [(''Accession'', p), (''MD5sum'', m)] df)
         = (if set side_labels \<subseteq> set (columns df)
            then Inr \<lparr>columns = map (renamed p m) side_labels,
                      rows = map (side_row (columns df)) (rows df)\<rparr>
            else Inl KeyError)"
proof -
  let ?f = "renamed p m"
  let ?cs = "columns df"
  have inj: "inj_on ?f (set side_labels \<union> set ?cs)"
    by (rule inj_on_renamed[OF p m pm])
  have cols: "columns (rename_columns [(''Accession'', p), (''MD5sum'', m)] df) = map ?f ?cs"
    by (simp add: rename_columns_def renamed_def)
  have rws: "rows (rename_columns [(''Accession'', p), (''MD5sum'', m)] df) = rows df"
    by (simp add: rename_columns_def)
  have sub: "set (map ?f side_labels) \<subseteq> set (map ?f ?cs) \<longleftrightarrow> set side_labels \<subseteq> set ?cs"
  proof -
    have "?f ` set side_labels \<subseteq> ?f ` set ?cs \<longleftrightarrow> set side_labels \<subseteq> set ?cs"
    proof
      assume a: "?f ` set side_labels \<subseteq> ?f ` set ?cs"
      show "set side_labels \<subseteq> set ?cs"
      proof
        fix l assume l: "l \<in> set side_labels"
        with a have "?f l \<in> ?f ` set ?cs" by blast
        moreover have "l \<in> set side_labels \<union> set ?cs" using l by simp
        moreover have "set ?cs \<subseteq> set side_labels \<union> set ?cs" by simp
        ultimately show "l \<in> set ?cs"
          using inj_on_image_mem_iff[OF inj] by blast
      qed
    next
      assume "set side_labels \<subseteq> set ?cs"
      then show "?f ` set side_labels \<subseteq> ?f ` set ?cs" by blast
    qed
    then show ?thesis by simp
  qed
  have cell: "cell_of (map ?f ?cs) r (?f l) = cell_of ?cs r l" if "l \<in> set side_labels" for r l
  proof (rule cell_of_rename)
    from that have "insert l (set ?cs) \<subseteq> set side_labels \<union> set ?cs" by auto
    with inj show "inj_on ?f (insert l (set ?cs))" by (rule inj_on_subset)
  qed
  have row: "map (cell_of (map ?f ?cs) r) (map ?f side_labels) = side_row ?cs r" for r
  proof -
    have "map (cell_of (map ?f ?cs) r) (map ?f side_labels) = map (cell_of ?cs r) side_labels"
      using cell by simp
    also have "\<dots> = side_row ?cs r" by (simp add: side_labels_def side_row_def)
    finally show ?thesis .
  qed
  have "inj_on ?f (set ?cs)" using inj by (rule inj_on_subset) simp
  with wf have dist: "distinct (columns (rename_columns [(''Accession'', p), (''MD5sum'', m)] df))"
    unfolding cols by (simp add: distinct_map well_formed_def)
  from wf have lens: "\<forall>r \<in> set (rows (rename_columns [(''Accession'', p), (''MD5sum'', m)] df)).
      length r = length (columns (rename_columns [(''Accession'', p), (''MD5sum'', m)] df))"
    unfolding cols rws by (simp add: well_formed_def)
  show ?thesis
    unfolding select_columns_distinct[OF dist lens] cols rws sub row by simp
qed

lemma key_side_r1: "key_of join_cols r1_cols (side_row cs a) = key_of join_cols cs a"
  by (simp add: key_of_def join_cols_def r1_cols_def side_row_def cell_of_def)

lemma key_side_r2: "key_of join_cols r2_cols (side_row cs a) = key_of join_cols cs a"
  by (simp add: key_of_def join_cols_def r2_cols_def side_row_def cell_of_def)

lemma rest_r2: "filter (\<lambda>c. c \<notin> set join_cols) r2_cols = [''R2_path'', ''R2_md5sum'']"
  by (simp add: join_cols_def r2_cols_def)

lemma rest_cells:
  "map snd (filter (\<lambda>(c, v). c \<notin> set join_cols) (zip r2_cols (side_row cs b)))
   = [cell_of cs b ''Accession'', cell_of cs b ''MD5sum'']"
  by (simp add: r2_cols_def side_row_def join_cols_def)

lemma right_only_cells:
  "map (\<lambda>c. if c \<in> set join_cols then cell_of r2_cols (side_row cs b) c else NaN) r1_cols
   = [cell_of cs b ''Lane'', cell_of cs b ''measurement_sets'', cell_of cs b ''file_modality'',
      NaN, NaN, cell_of cs b ''Flowcell ID'', cell_of cs b ''Seqspecs'']"
  by (simp add: join_cols_def r1_cols_def r2_cols_def side_row_def cell_of_def)

lemma merged_cols_eq: "r1_cols @ [''R2_path'', ''R2_md5sum''] = merged_cols"
  by (simp add: r1_cols_def merged_cols_def)

lemma partners_sides:
  "filter (\<lambda>b'. key_of join_cols r2_cols b' = key_of join_cols r1_cols (side_row cs a))
          (map (side_row cs) B)
   = map (side_row cs) (partners cs B a)"
  by (simp add: filter_map o_def key_side_r1 key_side_r2 partners_def)

lemma unmatched_sides:
  "filter (\<lambda>b'. \<not> (\<exists>a' \<in> set (map (side_row cs) A).
             key_of join_cols r1_cols a' = key_of join_cols r2_cols b'))
          (map (side_row cs) B)
   = map (side_row cs) (unmatched cs A B)"
  by (simp add: filter_map o_def key_side_r1 key_side_r2 unmatched_def)

lemma merge_sides:
  "merge_outer join_cols \<lparr>columns = r1_cols, rows = map (side_row cs) A\<rparr>
      \<lparr>columns = r2_cols, rows = map (side_row cs) B\<rparr>
   = \<lparr>columns = merged_cols, rows = merged_rows cs A B\<rparr>"
proof -
  have left: "concat (map (\<lambda>a'.
             if filter (\<lambda>b'. key_of join_cols r2_cols b' = key_of join_cols r1_cols a')
                  (map (side_row cs) B) = []
             then [a' @ map (\<lambda>c. NaN) [''R2_path'', ''R2_md5sum'']]
             else map (\<lambda>b'. a' @ map snd (filter (\<lambda>(c, v). c \<notin> set join_cols) (zip r2_cols b')))
                    (filter (\<lambda>b'. key_of join_cols r2_cols b' = key_of join_cols r1_cols a')
                       (map (side_row cs) B))) (map (side_row cs) A))
     = concat (map (\<lambda>a. if partners cs B a = [] then [side_row cs a @ [NaN, NaN]]
                       else map (\<lambda>b. side_row cs a @ [cell_of cs b ''Accession'', cell_of cs b ''MD5sum''])
                              (partners cs B a)) A)"
    unfolding map_map o_def partners_sides rest_cells
    by (simp cong: if_cong)
  have right: "map (\<lambda>b'. map (\<lambda>c. if c \<in> set join_cols then cell_of r2_cols b' c else NaN) r1_cols
             @ map snd (filter (\<lambda>(c, v). c \<notin> set join_cols) (zip r2_cols b')))
          (filter (\<lambda>b'. \<not> (\<exists>a' \<in> set (map (side_row cs) A).
             key_of join_cols r1_cols a' = key_of join_cols r2_cols b')) (map (side_row cs) B))
     = map (right_only_row cs) (unmatched cs A B)"
    unfolding unmatched_sides map_map o_def right_only_cells rest_cells
    by (simp add: right_only_row_def)
  show ?thesis
    unfolding merge_outer_def Let_def dataframe.simps rest_r2 left right merged_cols_eq merged_rows_def
    by (rule refl)
qed

lemma zip_map_twice:
  "map (\<lambda>(l, v). h2 l v) (zip cs (map (\<lambda>(l, v). h1 l v) (zip cs r)))
   = map (\<lambda>(l, v). h2 l (h1 l v)) (zip cs r)"
proof (induction cs arbitrary: r)
  case Nil
  then show ?case by simp
next
  case (Cons c cs)
  then show ?case by (cases r) simp_all
qed

lemma process_seqspecs_rows:
  assumes "''Seqspecs'' \<in> set cs"
  shows "process_seqspecs \<lparr>columns = cs, rows = M\<rparr>
         = \<lparr>columns = cs, rows = map (\<lambda>r. map (\<lambda>(l, v). if l = ''Seqspecs'' then normalize_seqspec v else v) (zip cs r)) M\<rparr>"
proof -
  have "map (\<lambda>(l, v). if l = ''Seqspecs'' then extract_nonempty v else v)
          (zip cs (map (\<lambda>(l, v). if l = ''Seqspecs'' then astype_str_replace_nan v else v) (zip cs r)))
        = map (\<lambda>(l, v). if l = ''Seqspecs'' then normalize_seqspec v else v) (zip cs r)" for r
  proof -
    have "map (\<lambda>(l, v). if l = ''Seqspecs'' then extract_nonempty v else v)
          (zip cs (map (\<lambda>(l, v). if l = ''Seqspecs'' then astype_str_replace_nan v else v) (zip cs r)))
        = map (\<lambda>(l, v). if l = ''Seqspecs'' then extract_nonempty (if l = ''Seqspecs'' then astype_str_replace_nan v else v)
                 else (if l = ''Seqspecs'' then astype_str_replace_nan v else v)) (zip cs r)"
      by (rule zip_map_twice)
    also have "\<dots> = map (\<lambda>(l, v). if l = ''Seqspecs'' then normalize_seqspec v else v) (zip cs r)"
      by (rule map_cong) (auto simp: normalize_seqspec_def)
    finally show ?thesis .
  qed
  then show ?thesis
    using assms by (simp add: process_seqspecs_def map_column_def o_def)
qed

lemma merged_has_seqspecs: "''Seqspecs'' \<in> set merged_cols"
  by (simp add: merged_cols_def)

lemma sort_cols_merged: "set sort_cols \<subseteq> set merged_cols"
  by (simp add: sort_cols_def merged_cols_def)

lemma final_cols_merged: "set final_cols \<subseteq> set merged_cols"
  by (simp add: final_cols_def merged_cols_def)

lemma distinct_merged_cols: "distinct merged_cols"
  by (simp add: merged_cols_def)

lemma length_merged_row: "m \<in> set (merged_rows cs A B) \<Longrightarrow> length m = length merged_cols"
  by (auto simp: merged_rows_def side_row_def right_only_row_def merged_cols_def split: if_splits)

lemma length_norm_row: "length m = length merged_cols \<Longrightarrow> length (norm_row m) = length merged_cols"
  by (simp add: norm_row_def)

lemma read_type_filter:
  "t \<in> set ts \<Longrightarrow> filter (read_type_is [t] cs) (filter (read_type_is ts cs) rs)
     = filter (\<lambda>r. cell_of cs r ''Illumina Read Type'' = Str t) rs"
  by (induction rs) (auto simp: read_type_is_def)

lemma final_proj_norm_row:
  "final_proj (norm_row [x0, x1, x2, x3, x4, x5, x6, x7, x8])
   = [x3, x4, x7, x8, x1, x0, x2, x5, normalize_seqspec x6]"
  by (simp add: final_proj_def norm_row_def merged_cols_def final_cols_def cell_of_def)

lemma rearrange_rows:
  assumes wf: "well_formed df" and ne: "\<not> is_empty df"
    and res: "set [''R1_path'', ''R1_md5sum'', ''R2_path'', ''R2_md5sum''] \<inter> set (columns df) = {}"
  shows "rearrange_sequence_files df =
     (if ''Illumina Read Type'' \<in> set (columns df) \<and> set side_labels \<subseteq> set (columns df)
      then Inr \<lparr>columns = final_cols,
                rows = map final_proj (sort_key (key_of sort_cols merged_cols)
                         (map norm_row (merged_rows (columns df) (reads ''R1'' df) (reads ''R2'' df))))\<rparr>
      else Inl KeyError)"
proof (cases "''Illumina Read Type'' \<in> set (columns df)")
  case False
  with ne show ?thesis
    by (simp add: rearrange_sequence_files_def get_column_def)
next
  case True
  let ?cs = "columns df"
  let ?d = "filter_rows (read_type_is [''R1'', ''R2''] ?cs) df"
  let ?d1 = "filter_rows (read_type_is [''R1''] ?cs) ?d"
  let ?d2 = "filter_rows (read_type_is [''R2''] ?cs) ?d"
  have c1: "columns ?d1 = ?cs" and c2: "columns ?d2 = ?cs" by (simp_all add: filter_rows_def)
  have rows1: "rows ?d1 = reads ''R1'' df"
    using read_type_filter[of "''R1''" "[''R1'', ''R2'']" ?cs "rows df"]
    by (simp add: filter_rows_def reads_def)
  have rows2: "rows ?d2 = reads ''R2'' df"
    using read_type_filter[of "''R2''" "[''R1'', ''R2'']" ?cs "rows df"]
    by (simp add: filter_rows_def reads_def)
  have lab: "''R1_path'' \<notin> set side_labels" "''R1_md5sum'' \<notin> set side_labels"
    "''R2_path'' \<notin> set side_labels" "''R2_md5sum'' \<notin> set side_labels"
    by (simp_all add: side_labels_def)
  from wf have wf1: "well_formed ?d1" and wf2: "well_formed ?d2"
    by (simp_all add: well_formed_def filter_rows_def)
  from res have resd: "''R1_path'' \<notin> set ?cs" "''R1_md5sum'' \<notin> set ?cs"
    "''R2_path'' \<notin> set ?cs" "''R2_md5sum'' \<notin> set ?cs" by auto
  have ne1: "''R1_path'' \<noteq> ''R1_md5sum''" and ne2: "''R2_path'' \<noteq> ''R2_md5sum''" by simp_all
  have s1: "select_columns r1_cols
             (rename_columns [(''Accession'', ''R1_path''), (''MD5sum'', ''R1_md5sum'')] ?d1)
           = (if set side_labels \<subseteq> set ?cs
              then Inr \<lparr>columns = r1_cols, rows = map (side_row ?cs) (reads ''R1'' df)\<rparr>
              else Inl KeyError)"
    using side_select[of ?d1 "''R1_path''" "''R1_md5sum''"] wf1 lab resd ne1
    unfolding c1 rows1 r1_cols_renamed[symmetric] by simp
  have s2: "select_columns r2_cols
             (rename_columns [(''Accession'', ''R2_path''), (''MD5sum'', ''R2_md5sum'')] ?d2)
           = (if set side_labels \<subseteq> set ?cs
              then Inr \<lparr>columns = r2_cols, rows = map (side_row ?cs) (reads ''R2'' df)\<rparr>
              else Inl KeyError)"
    using side_select[of ?d2 "''R2_path''" "''R2_md5sum''"] wf2 lab resd ne2
    unfolding c2 rows2 r2_cols_renamed[symmetric] by simp
  have g: "get_column df ''Illumina Read Type''
           = Inr (map (\<lambda>r. cell_of ?cs r ''Illumina Read Type'') (rows df))"
    using True by (simp add: get_column_def)
  show ?thesis
  proof (cases "set side_labels \<subseteq> set ?cs")
    case False
    with ne True g s1 show ?thesis
      by (simp add: rearrange_sequence_files_def Let_def)
  next
    case sub: True
    let ?M = "merged_rows ?cs (reads ''R1'' df) (reads ''R2'' df)"
    have p: "process_seqspecs \<lparr>columns = merged_cols, rows = ?M\<rparr>
             = \<lparr>columns = merged_cols, rows = map norm_row ?M\<rparr>"
      unfolding process_seqspecs_rows[OF merged_has_seqspecs] norm_row_def by (rule refl)
    have srt: "sort_values sort_cols \<lparr>columns = merged_cols, rows = map norm_row ?M\<rparr>
             = Inr \<lparr>columns = merged_cols,
                    rows = sort_key (key_of sort_cols merged_cols) (map norm_row ?M)\<rparr>"
      using sort_cols_merged by (simp add: sort_values_def)
    have sel: "select_columns final_cols \<lparr>columns = merged_cols,
                    rows = sort_key (key_of sort_cols merged_cols) (map norm_row ?M)\<rparr>
             = Inr \<lparr>columns = final_cols,
                    rows = map final_proj (sort_key (key_of sort_cols merged_cols) (map norm_row ?M))\<rparr>"
    proof -
      let ?S = "\<lparr>columns = merged_cols,
                  rows = sort_key (key_of sort_cols merged_cols) (map norm_row ?M)\<rparr>"
      have d: "distinct (columns ?S)" by (simp add: distinct_merged_cols)
      have l: "\<forall>r \<in> set (rows ?S). length r = length (columns ?S)"
        by (auto simp: length_merged_row length_norm_row)
      show ?thesis
        unfolding select_columns_distinct[OF d l] using final_cols_merged
        by (simp add: final_proj_def)
    qed
    from ne True sub g s1 s2 show ?thesis
      by (simp add: rearrange_sequence_files_def Let_def merge_sides p srt sel)
  qed
qed

lemma final_of_left:
  "final_proj (norm_row (side_row cs a @ [p, d]))
   = wide_row cs a (cell_of cs a ''Accession'') (cell_of cs a ''MD5sum'') p d"
  by (simp add: side_row_def final_proj_norm_row wide_row_def)

lemma final_of_right:
  "final_proj (norm_row (right_only_row cs b))
   = wide_row cs b NaN NaN (cell_of cs b ''Accession'') (cell_of cs b ''MD5sum'')"
  by (simp add: right_only_row_def final_proj_norm_row wide_row_def)

lemma partners_iff:
  "b \<in> set (partners cs B a) \<longleftrightarrow> b \<in> set B \<and> key_of join_cols cs b = key_of join_cols cs a"
  by (simp add: partners_def)

lemma partners_Nil_iff:
  "partners cs B a = [] \<longleftrightarrow> (\<forall>b \<in> set B. key_of join_cols cs b \<noteq> key_of join_cols cs a)"
  by (simp add: partners_def filter_empty_conv)

lemma unmatched_iff:
  "b \<in> set (unmatched cs A B) \<longleftrightarrow>
     b \<in> set B \<and> (\<forall>a \<in> set A. key_of join_cols cs a \<noteq> key_of join_cols cs b)"
  by (simp add: unmatched_def)

lemma mem_concat_map: "a \<in> set A \<Longrightarrow> m \<in> set (f a) \<Longrightarrow> m \<in> set (concat (map f A))"
  by auto

lemma mem_merged_rows:
  "m \<in> set (merged_rows cs A B) \<longleftrightarrow>
     (\<exists>a \<in> set A. \<exists>b \<in> set B. key_of join_cols cs b = key_of join_cols cs a
        \<and> m = side_row cs a @ [cell_of cs b ''Accession'', cell_of cs b ''MD5sum''])
     \<or> (\<exists>a \<in> set A. (\<forall>b \<in> set B. key_of join_cols cs b \<noteq> key_of join_cols cs a)
        \<and> m = side_row cs a @ [NaN, NaN])
     \<or> (\<exists>b \<in> set B. (\<forall>a \<in> set A. key_of join_cols cs a \<noteq> key_of join_cols cs b)
        \<and> m = right_only_row cs b)"
  (is "?L \<longleftrightarrow> ?P \<or> ?Q \<or> ?R")
proof
  let ?f = "\<lambda>a. if partners cs B a = [] then [side_row cs a @ [NaN, NaN]]
                 else map (\<lambda>b. side_row cs a @ [cell_of cs b ''Accession'', cell_of cs b ''MD5sum''])
                        (partners cs B a)"
  assume ?L
  then consider (left) a where "a \<in> set A" "m \<in> set (?f a)"
    | (right) b where "b \<in> set (unmatched cs A B)" "m = right_only_row cs b"
    by (auto simp: merged_rows_def)
  then show "?P \<or> ?Q \<or> ?R"
  proof cases
    case left
    show ?thesis
    proof (cases "partners cs B a = []")
      case True
      with left have "m = side_row cs a @ [NaN, NaN]" by simp
      with left(1) True have ?Q by (auto simp: partners_Nil_iff)
      then show ?thesis by blast
    next
      case False
      with left obtain b where "b \<in> set (partners cs B a)"
        "m = side_row cs a @ [cell_of cs b ''Accession'', cell_of cs b ''MD5sum'']" by auto
      with left(1) have ?P by (auto simp: partners_iff)
      then show ?thesis by blast
    qed
  next
    case right
    then have ?R by (auto simp: unmatched_iff)
    then show ?thesis by blast
  qed
next
  let ?f = "\<lambda>a. if partners cs B a = [] then [side_row cs a @ [NaN, NaN]]
                 else map (\<lambda>b. side_row cs a @ [cell_of cs b ''Accession'', cell_of cs b ''MD5sum''])
                        (partners cs B a)"
  have split: "set (merged_rows cs A B)
     = set (concat (map ?f A)) \<union> set (map (right_only_row cs) (unmatched cs A B))"
    unfolding merged_rows_def set_append by (rule refl)
  assume "?P \<or> ?Q \<or> ?R"
  then consider (p) ?P | (q) ?Q | (r) ?R by blast
  then show ?L
  proof cases
    case p
    then obtain a b where ab: "a \<in> set A" "b \<in> set (partners cs B a)"
      "m = side_row cs a @ [cell_of cs b ''Accession'', cell_of cs b ''MD5sum'']"
      by (auto simp: partners_iff)
    then have "partners cs B a \<noteq> []" by auto
    with ab have "m \<in> set (?f a)" by simp
    with ab(1) have "m \<in> set (concat (map ?f A))" by (rule mem_concat_map)
    then show ?thesis unfolding split by blast
  next
    case q
    then obtain a where a: "a \<in> set A" "partners cs B a = []" "m = side_row cs a @ [NaN, NaN]"
      by (auto simp: partners_Nil_iff)
    then have "m \<in> set (?f a)" by simp
    with a(1) have "m \<in> set (concat (map ?f A))" by (rule mem_concat_map)
    then show ?thesis unfolding split by blast
  next
    case r
    then obtain b where "b \<in> set (unmatched cs A B)" "m = right_only_row cs b"
      by (auto simp: unmatched_iff)
    then have "m \<in> set (map (right_only_row cs) (unmatched cs A B))" by simp
    then show ?thesis unfolding split by blast
  qed
qed

lemma mem_final_rows:
  "r \<in> set (map final_proj (sort_key f (map norm_row (merged_rows cs A B)))) \<longleftrightarrow>
     (\<exists>a \<in> set A. \<exists>b \<in> set B. key_of join_cols cs b = key_of join_cols cs a
        \<and> r = wide_row cs a (cell_of cs a ''Accession'') (cell_of cs a ''MD5sum'')
                    (cell_of cs b ''Accession'') (cell_of cs b ''MD5sum''))
     \<or> (\<exists>a \<in> set A. (\<forall>b \<in> set B. key_of join_cols cs b \<noteq> key_of join_cols cs a)
        \<and> r = wide_row cs a (cell_of cs a ''Accession'') (cell_of cs a ''MD5sum'') NaN NaN)
     \<or> (\<exists>b \<in> set B. (\<forall>a \<in> set A. key_of join_cols cs a \<noteq> key_of join_cols cs b)
        \<and> r = wide_row cs b NaN NaN (cell_of cs b ''Accession'') (cell_of cs b ''MD5sum''))"
  (is "?L \<longleftrightarrow> ?P \<or> ?Q \<or> ?R")
proof -
  have "?L \<longleftrightarrow> (\<exists>m. m \<in> set (merged_rows cs A B) \<and> r = final_proj (norm_row m))"
    by (auto simp: image_iff)
  also have "\<dots> \<longleftrightarrow> ?P \<or> ?Q \<or> ?R"
  proof
    assume "\<exists>m. m \<in> set (merged_rows cs A B) \<and> r = final_proj (norm_row m)"
    then obtain m where m: "m \<in> set (merged_rows cs A B)" and r: "r = final_proj (norm_row m)"
      by blast
    from m[unfolded mem_merged_rows] show "?P \<or> ?Q \<or> ?R"
    proof (elim disjE bexE conjE)
      fix a b assume "a \<in> set A" "b \<in> set B" "key_of join_cols cs b = key_of join_cols cs a"
        "m = side_row cs a @ [cell_of cs b ''Accession'', cell_of cs b ''MD5sum'']"
      with r have ?P by (auto simp: final_of_left)
      then show ?thesis by blast
    next
      fix a assume "a \<in> set A" "\<forall>b \<in> set B. key_of join_cols cs b \<noteq> key_of join_cols cs a"
        "m = side_row cs a @ [NaN, NaN]"
      with r have ?Q by (auto simp: final_of_left)
      then show ?thesis by blast
    next
      fix b assume "b \<in> set B" "\<forall>a \<in> set A. key_of join_cols cs a \<noteq> key_of join_cols cs b"
        "m = right_only_row cs b"
      with r have ?R by (auto simp: final_of_right)
      then show ?thesis by blast
    qed
  next
    assume "?P \<or> ?Q \<or> ?R"
    then consider (p) ?P | (q) ?Q | (r) ?R by blast
    then show "\<exists>m. m \<in> set (merged_rows cs A B) \<and> r = final_proj (norm_row m)"
    proof cases
      case p
      then obtain a b where ab: "a \<in> set A" "b \<in> set B"
        "key_of join_cols cs b = key_of join_cols cs a"
        "r = wide_row cs a (cell_of cs a ''Accession'') (cell_of cs a ''MD5sum'')
                    (cell_of cs b ''Accession'') (cell_of cs b ''MD5sum'')" by blast
      let ?m = "side_row cs a @ [cell_of cs b ''Accession'', cell_of cs b ''MD5sum'']"
      from ab(1-3) have "?m \<in> set (merged_rows cs A B)" unfolding mem_merged_rows by blast
      moreover have "r = final_proj (norm_row ?m)" by (simp add: ab(4) final_of_left)
      ultimately show ?thesis by blast
    next
      case q
      then obtain a where a: "a \<in> set A"
        "\<forall>b \<in> set B. key_of join_cols cs b \<noteq> key_of join_cols cs a"
        "r = wide_row cs a (cell_of cs a ''Accession'') (cell_of cs a ''MD5sum'') NaN NaN" by blast
      let ?m = "side_row cs a @ [NaN, NaN]"
      from a(1,2) have "?m \<in> set (merged_rows cs A B)" unfolding mem_merged_rows by blast
      moreover have "r = final_proj (norm_row ?m)" by (simp add: a(3) final_of_left)
      ultimately show ?thesis by blast
    next
      case r
      then obtain b where b: "b \<in> set B"
        "\<forall>a \<in> set A. key_of join_cols cs a \<noteq> key_of join_cols cs b"
        "r = wide_row cs b NaN NaN (cell_of cs b ''Accession'') (cell_of cs b ''MD5sum'')" by blast
      let ?m = "right_only_row cs b"
      from b(1,2) have "?m \<in> set (merged_rows cs A B)" unfolding mem_merged_rows by blast
      moreover have "r = final_proj (norm_row ?m)" by (simp add: b(3) final_of_right)
      ultimately show ?thesis by blast
    qed
  qed
  finally show ?thesis .
qed

lemma distinct_map_sort_key: "distinct (map f (sort_key g xs)) = distinct (map f xs)"
  by (simp add: distinct_map)

lemma filter_le_one:
  "distinct (map f xs) \<Longrightarrow> length (filter (\<lambda>x. f x = k) xs) \<le> 1"
proof (induction xs)
  case Nil
  then show ?case by simp
next
  case (Cons x xs)
  show ?case
  proof (cases "f x = k")
    case True
    from Cons.prems have "f x \<notin> f ` set xs" by simp
    with True have "\<forall>y \<in> set xs. f y \<noteq> k" by blast
    then have "filter (\<lambda>x. f x = k) xs = []" by (simp add: filter_empty_conv)
    with True show ?thesis by simp
  next
    case False
    with Cons show ?thesis by simp
  qed
qed

lemma key_wide_row:
  "key_of [''measurement_sets'', ''Lane'', ''file_modality'', ''Flowcell ID'', ''Seqspecs'']
      final_cols (wide_row cs k p1 m1 p2 m2) = out_key cs k"
  by (simp add: key_of_def final_cols_def wide_row_def out_key_def cell_of_def)

lemma join_key_explicit:
  "key_of join_cols cs r = [cell_of cs r ''Lane'', cell_of cs r ''measurement_sets'',
     cell_of cs r ''file_modality'', cell_of cs r ''Flowcell ID'', cell_of cs r ''Seqspecs'']"
  by (simp add: key_of_def join_cols_def)

lemma out_key_eq_iff:
  assumes "inj_on normalize_seqspec S" "cell_of cs r ''Seqspecs'' \<in> S" "cell_of cs r' ''Seqspecs'' \<in> S"
  shows "out_key cs r = out_key cs r' \<longleftrightarrow> key_of join_cols cs r = key_of join_cols cs r'"
  using assms by (auto simp: out_key_def join_key_explicit inj_on_def)

lemma out_keys_of_merged:
  assumes "distinct (map (key_of join_cols cs) B)"
  shows "map (\<lambda>m. key_of [''measurement_sets'', ''Lane'', ''file_modality'', ''Flowcell ID'', ''Seqspecs'']
                     final_cols (final_proj (norm_row m))) (merged_rows cs A B)
         = map (out_key cs) A @ map (out_key cs) (unmatched cs A B)"
proof -
  let ?k = "\<lambda>m. key_of [''measurement_sets'', ''Lane'', ''file_modality'', ''Flowcell ID'', ''Seqspecs'']
                     final_cols (final_proj (norm_row m))"
  let ?f = "\<lambda>a. if partners cs B a = [] then [side_row cs a @ [NaN, NaN]]
                 else map (\<lambda>b. side_row cs a @ [cell_of cs b ''Accession'', cell_of cs b ''MD5sum''])
                        (partners cs B a)"
  have kl: "?k (side_row cs a @ [p, d]) = out_key cs a" for a p d
    by (simp only: final_of_left key_wide_row)
  have kr: "?k (right_only_row cs b) = out_key cs b" for b
    by (simp only: final_of_right key_wide_row)
  have one: "map ?k (?f a) = [out_key cs a]" for a
  proof (cases "partners cs B a")
    case Nil
    then show ?thesis using kl[of a NaN NaN] by simp
  next
    case (Cons b bs)
    have "length (partners cs B a) \<le> 1"
      unfolding partners_def by (rule filter_le_one[OF assms])
    with Cons have "bs = []" by simp
    with Cons show ?thesis using kl[of a "cell_of cs b ''Accession''" "cell_of cs b ''MD5sum''"] by simp
  qed
  have "map ?k (concat (map ?f A)) = concat (map (\<lambda>a. map ?k (?f a)) A)"
    by (simp add: map_concat o_def)
  also have "\<dots> = concat (map (\<lambda>a. [out_key cs a]) A)"
    unfolding one by (rule refl)
  also have "\<dots> = map (out_key cs) A" by (induction A) simp_all
  finally have left: "map ?k (concat (map ?f A)) = map (out_key cs) A" .
  have right: "map ?k (map (right_only_row cs) (unmatched cs A B)) = map (out_key cs) (unmatched cs A B)"
    by (simp add: kr o_def)
  show ?thesis
    unfolding merged_rows_def map_append left right by (rule refl)
qed

lemma distinct_out_keys:
  assumes dA: "distinct (map (key_of join_cols cs) A)"
    and dB: "distinct (map (key_of join_cols cs) B)"
    and inj: "inj_on normalize_seqspec ((\<lambda>r. cell_of cs r ''Seqspecs'') ` (set A \<union> set B))"
  shows "distinct (map (out_key cs) A @ map (out_key cs) (unmatched cs A B))"
proof -
  let ?S = "(\<lambda>r. cell_of cs r ''Seqspecs'') ` (set A \<union> set B)"
  have iff: "out_key cs r = out_key cs r' \<longleftrightarrow> key_of join_cols cs r = key_of join_cols cs r'"
    if "r \<in> set A \<union> set B" "r' \<in> set A \<union> set B" for r r'
    using that by (intro out_key_eq_iff[OF inj]) auto
  have injA: "inj_on (out_key cs) (set A)"
  proof (rule inj_onI)
    fix x y assume x: "x \<in> set A" and y: "y \<in> set A" and e: "out_key cs x = out_key cs y"
    then have "key_of join_cols cs x = key_of join_cols cs y" using iff[of x y] by simp
    with dA x y show "x = y" by (auto simp: distinct_map inj_on_def)
  qed
  have subB: "set (unmatched cs A B) \<subseteq> set B" by (auto simp: unmatched_iff)
  have injB: "inj_on (out_key cs) (set (unmatched cs A B))"
  proof (rule inj_onI)
    fix x y assume x: "x \<in> set (unmatched cs A B)" and y: "y \<in> set (unmatched cs A B)"
      and e: "out_key cs x = out_key cs y"
    with subB have xB: "x \<in> set B" and yB: "y \<in> set B" by auto
    with e have "key_of join_cols cs x = key_of join_cols cs y" using iff[of x y] by simp
    with dB xB yB show "x = y" by (auto simp: distinct_map inj_on_def)
  qed
  have d1: "distinct (map (out_key cs) A)"
    using dA injA by (simp add: distinct_map)
  have "distinct B" using dB by (simp add: distinct_map)
  then have "distinct (unmatched cs A B)" by (simp add: unmatched_def)
  with injB have d2: "distinct (map (out_key cs) (unmatched cs A B))"
    by (simp add: distinct_map)
  have disj: "set (map (out_key cs) A) \<inter> set (map (out_key cs) (unmatched cs A B)) = {}"
  proof (rule ccontr)
    assume "set (map (out_key cs) A) \<inter> set (map (out_key cs) (unmatched cs A B)) \<noteq> {}"
    then obtain a b where a: "a \<in> set A" and b: "b \<in> set (unmatched cs A B)"
      and e: "out_key cs a = out_key cs b" by auto
    from b subB have bB: "b \<in> set B" by auto
    from e a bB have "key_of join_cols cs a = key_of join_cols cs b" using iff[of a b] by simp
    with a b show False by (auto simp: unmatched_iff)
  qed
  from d1 d2 disj show ?thesis by simp
qed

lemma required_labels:
  "set [''Illumina Read Type'', ''Lane'', ''measurement_sets'', ''file_modality'', ''Accession'',
        ''MD5sum'', ''Flowcell ID'', ''Seqspecs''] \<subseteq> S
   \<longleftrightarrow> ''Illumina Read Type'' \<in> S \<and> set side_labels \<subseteq> S"
  by (auto simp: side_labels_def)

text \<open>
  Claim C4. For a non-empty table that has the columns the Reshaper reads (and none of the
  four labels it introduces), the Reshaper returns, and its output rows are exactly these:
  for every R1 row and every R2 row with the same key (Lane, measurement_sets, file_modality,
  Flowcell ID, Seqspecs), a row with the path and md5sum of both; for every R1 row whose key
  no R2 row has, a row with its path and md5sum and \<^verbatim>\<open>NaN\<close> in the R2 fields; for
  every R2 row whose key no R1 row has, a row with its path and md5sum and \<^verbatim>\<open>NaN\<close>
  in the R1 fields. So rows of any other read type leave no trace, and no R1 or R2 row is
  dropped. The key cells of an output row are those of the rows it is made from, the
  Seqspecs cell normalised.
\<close>

theorem outer_join:
  fixes df :: dataframe
  defines "R1 \<equiv> filter (\<lambda>r. cell_of (columns df) r ''Illumina Read Type'' = Str ''R1'') (rows df)"
    and "R2 \<equiv> filter (\<lambda>r. cell_of (columns df) r ''Illumina Read Type'' = Str ''R2'') (rows df)"
    and "key \<equiv> key_of join_cols (columns df)"
    and "path \<equiv> \<lambda>r. cell_of (columns df) r ''Accession''"
    and "md5 \<equiv> \<lambda>r. cell_of (columns df) r ''MD5sum''"
    and "pair \<equiv> \<lambda>k p1 m1 p2 m2.
           [p1, m1, p2, m2, cell_of (columns df) k ''measurement_sets'',
            cell_of (columns df) k ''Lane'', cell_of (columns df) k ''file_modality'',
            cell_of (columns df) k ''Flowcell ID'',
            normalize_seqspec (cell_of (columns df) k ''Seqspecs'')]"
  assumes wf: "well_formed df" and ne: "\<not> is_empty df"
    and req: "set [''Illumina Read Type'', ''Lane'', ''measurement_sets'', ''file_modality'',
                   ''Accession'', ''MD5sum'', ''Flowcell ID'', ''Seqspecs''] \<subseteq> set (columns df)"
    and res: "set [''R1_path'', ''R1_md5sum'', ''R2_path'', ''R2_md5sum''] \<inter> set (columns df) = {}"
  shows "\<exists>out. rearrange_sequence_files df = Inr out \<and>
     (\<forall>r. r \<in> set (rows out) \<longleftrightarrow>
        (\<exists>a \<in> set R1. \<exists>b \<in> set R2. key b = key a \<and> r = pair a (path a) (md5 a) (path b) (md5 b))
        \<or> (\<exists>a \<in> set R1. (\<forall>b \<in> set R2. key b \<noteq> key a) \<and> r = pair a (path a) (md5 a) NaN NaN)
        \<or> (\<exists>b \<in> set R2. (\<forall>a \<in> set R1. key a \<noteq> key b) \<and> r = pair b NaN NaN (path b) (md5 b)))"
proof -
  let ?out = "\<lparr>columns = final_cols,
                rows = map final_proj (sort_key (key_of sort_cols merged_cols)
                         (map norm_row (merged_rows (columns df) (reads ''R1'' df) (reads ''R2'' df))))\<rparr>"
  from req have "''Illumina Read Type'' \<in> set (columns df) \<and> set side_labels \<subseteq> set (columns df)"
    unfolding required_labels .
  with rearrange_rows[OF wf ne res] have out: "rearrange_sequence_files df = Inr ?out" by simp
  have R: "reads ''R1'' df = R1" "reads ''R2'' df = R2" by (simp_all add: reads_def R1_def R2_def)
  have p: "wide_row (columns df) k p1 m1 p2 m2 = pair k p1 m1 p2 m2" for k p1 m1 p2 m2
    by (simp add: wide_row_def pair_def)
  have "\<forall>r. r \<in> set (rows ?out) \<longleftrightarrow>
        (\<exists>a \<in> set R1. \<exists>b \<in> set R2. key b = key a \<and> r = pair a (path a) (md5 a) (path b) (md5 b))
        \<or> (\<exists>a \<in> set R1. (\<forall>b \<in> set R2. key b \<noteq> key a) \<and> r = pair a (path a) (md5 a) NaN NaN)
        \<or> (\<exists>b \<in> set R2. (\<forall>a \<in> set R1. key a \<noteq> key b) \<and> r = pair b NaN NaN (path b) (md5 b))"
    unfolding dataframe.simps mem_final_rows R p key_def path_def md5_def by (rule allI) (rule refl)
  with out show ?thesis by (intro exI conjI)
qed

theorem outer_join_witness:
  "well_formed example_files \<and> \<not> is_empty example_files
   \<and> set [''Illumina Read Type'', ''Lane'', ''measurement_sets'', ''file_modality'',
           ''Accession'', ''MD5sum'', ''Flowcell ID'', ''Seqspecs''] \<subseteq> set (columns example_files)
   \<and> set [''R1_path'', ''R1_md5sum'', ''R2_path'', ''R2_md5sum''] \<inter> set (columns example_files) = {}
   \<and> (\<exists>out. rearrange_sequence_files example_files = Inr out)"
proof -
  have h1: "well_formed example_files" by code_simp
  have h2: "\<not> is_empty example_files" by code_simp
  have h3: "set [''Illumina Read Type'', ''Lane'', ''measurement_sets'', ''file_modality'',
           ''Accession'', ''MD5sum'', ''Flowcell ID'', ''Seqspecs''] \<subseteq> set (columns example_files)"
    by code_simp
  have h4: "set [''R1_path'', ''R1_md5sum'', ''R2_path'', ''R2_md5sum''] \<inter> set (columns example_files) = {}"
    by code_simp
  from outer_join[OF h1 h2 h3 h4] obtain out where "rearrange_sequence_files example_files = Inr out"
    by (elim exE conjE)
  then have "\<exists>out. rearrange_sequence_files example_files = Inr out" by (rule exI)
  with h1 h2 h3 h4 show ?thesis by blast
qed

text \<open>
  Claim C5, as amended. If no two R1 rows of the input have the same join key, no two R2
  rows have the same join key, and the seqspec normalisation maps different Seqspecs values
  of these rows to different values, then the output rows have pairwise different keys
  (measurement_sets, Lane, file_modality, Flowcell ID, Seqspecs).
\<close>

theorem unique_keys:
  fixes df :: dataframe
  defines "R1 \<equiv> filter (\<lambda>r. cell_of (columns df) r ''Illumina Read Type'' = Str ''R1'') (rows df)"
    and "R2 \<equiv> filter (\<lambda>r. cell_of (columns df) r ''Illumina Read Type'' = Str ''R2'') (rows df)"
    and "key \<equiv> key_of join_cols (columns df)"
  assumes wf: "well_formed df" and ne: "\<not> is_empty df"
    and req: "set [''Illumina Read Type'', ''Lane'', ''measurement_sets'', ''file_modality'',
                   ''Accession'', ''MD5sum'', ''Flowcell ID'', ''Seqspecs''] \<subseteq> set (columns df)"
    and res: "set [''R1_path'', ''R1_md5sum'', ''R2_path'', ''R2_md5sum''] \<inter> set (columns df) = {}"
    and d1: "distinct (map key R1)" and d2: "distinct (map key R2)"
    and inj: "inj_on normalize_seqspec ((\<lambda>r. cell_of (columns df) r ''Seqspecs'') ` (set R1 \<union> set R2))"
  shows "\<exists>out. rearrange_sequence_files df = Inr out \<and>
           distinct (map (key_of [''measurement_sets'', ''Lane'', ''file_modality'', ''Flowcell ID'',
                                  ''Seqspecs''] (columns out)) (rows out))"
proof -
  let ?M = "merged_rows (columns df) (reads ''R1'' df) (reads ''R2'' df)"
  let ?out = "\<lparr>columns = final_cols,
                rows = map final_proj (sort_key (key_of sort_cols merged_cols) (map norm_row ?M))\<rparr>"
  let ?k = "key_of [''measurement_sets'', ''Lane'', ''file_modality'', ''Flowcell ID'', ''Seqspecs'']
              final_cols"
  from req have "''Illumina Read Type'' \<in> set (columns df) \<and> set side_labels \<subseteq> set (columns df)"
    unfolding required_labels .
  with rearrange_rows[OF wf ne res] have out: "rearrange_sequence_files df = Inr ?out" by simp
  have R: "reads ''R1'' df = R1" "reads ''R2'' df = R2" by (simp_all add: reads_def R1_def R2_def)
  have "map ?k (rows ?out)
        = map (\<lambda>r. ?k (final_proj r)) (sort_key (key_of sort_cols merged_cols) (map norm_row ?M))"
    by (simp add: o_def)
  then have "distinct (map ?k (rows ?out))
        \<longleftrightarrow> distinct (map (\<lambda>r. ?k (final_proj r)) (map norm_row ?M))"
    by (simp only: distinct_map_sort_key)
  also have "map (\<lambda>r. ?k (final_proj r)) (map norm_row ?M)
        = map (\<lambda>m. ?k (final_proj (norm_row m))) ?M" by (simp add: o_def)
  also have "\<dots> = map (out_key (columns df)) R1 @ map (out_key (columns df)) (unmatched (columns df) R1 R2)"
    unfolding R by (rule out_keys_of_merged) (use d2 in \<open>simp add: key_def\<close>)
  also have "distinct \<dots>"
    by (rule distinct_out_keys) (use d1 d2 inj in \<open>simp_all add: key_def\<close>)
  finally have "distinct (map ?k (rows ?out))" .
  then have "distinct (map (key_of [''measurement_sets'', ''Lane'', ''file_modality'', ''Flowcell ID'',
                                  ''Seqspecs''] (columns ?out)) (rows ?out))" by simp
  with out show ?thesis by (intro exI conjI)
qed

theorem unique_keys_witness:
  "well_formed example_files \<and> \<not> is_empty example_files
   \<and> distinct (map (key_of join_cols (columns example_files))
        (filter (\<lambda>r. cell_of (columns example_files) r ''Illumina Read Type'' = Str ''R1'')
           (rows example_files)))
   \<and> distinct (map (key_of join_cols (columns example_files))
        (filter (\<lambda>r. cell_of (columns example_files) r ''Illumina Read Type'' = Str ''R2'')
           (rows example_files)))
   \<and> (\<exists>out. rearrange_sequence_files example_files = Inr out \<and>
           distinct (map (key_of [''measurement_sets'', ''Lane'', ''file_modality'', ''Flowcell ID'',
                                  ''Seqspecs''] (columns out)) (rows out)))"
proof -
  have h1: "well_formed example_files" by code_simp
  have h2: "\<not> is_empty example_files" by code_simp
  have h3: "set [''Illumina Read Type'', ''Lane'', ''measurement_sets'', ''file_modality'',
           ''Accession'', ''MD5sum'', ''Flowcell ID'', ''Seqspecs''] \<subseteq> set (columns example_files)"
    by code_simp
  have h4: "set [''R1_path'', ''R1_md5sum'', ''R2_path'', ''R2_md5sum''] \<inter> set (columns example_files) = {}"
    by code_simp
  have h5: "distinct (map (key_of join_cols (columns example_files))
        (filter (\<lambda>r. cell_of (columns example_files) r ''Illumina Read Type'' = Str ''R1'')
           (rows example_files)))" by code_simp
  have h6: "distinct (map (key_of join_cols (columns example_files))
        (filter (\<lambda>r. cell_of (columns example_files) r ''Illumina Read Type'' = Str ''R2'')
           (rows example_files)))" by code_simp
  have h7: "inj_on normalize_seqspec ((\<lambda>r. cell_of (columns example_files) r ''Seqspecs'') `
        (set (filter (\<lambda>r. cell_of (columns example_files) r ''Illumina Read Type'' = Str ''R1'')
               (rows example_files))
         \<union> set (filter (\<lambda>r. cell_of (columns example_files) r ''Illumina Read Type'' = Str ''R2'')
               (rows example_files))))"
    unfolding inj_on_def by code_simp
  from unique_keys[OF h1 h2 h3 h4 h5 h6 h7] h1 h2 h5 h6 show ?thesis by (intro conjI)
qed

text \<open>
  The claim as stated fails: two R1 files recorded for the same lane, flowcell and seqspec
  give two output rows with the same key.
\<close>

theorem unique_keys_counterexample:
  "rearrange_sequence_files example_duplicates = Inr example_duplicate_pairs
   \<and> \<not> distinct (map (key_of [''measurement_sets'', ''Lane'', ''file_modality'', ''Flowcell ID'',
                                ''Seqspecs''] (columns example_duplicate_pairs))
                      (rows example_duplicate_pairs))"
  by code_simp

text \<open>
  Claim C8. Take a non-empty input whose labels are distinct, whose rows have one cell for
  each label, and which has none of the labels \<^verbatim>\<open>R1_path, R1_md5sum, R2_path,
  R2_md5sum\<close> that the Reshaper creates. When the Reshaper returns, the columns of the
  output are exactly \<^verbatim>\<open>R1_path, R1_md5sum, R2_path, R2_md5sum, measurement_sets, Lane,
  file_modality, Flowcell ID, Seqspecs\<close> in this order, every row has one cell for each,
  and the rows are in ascending order of (measurement_sets, Lane, file_modality, Flowcell ID),
  compared lexicographically in the order of \<^verbatim>\<open>sort_values\<close> (missing values last).
\<close>

theorem output_sorted_and_projected:
  assumes "rearrange_sequence_files df = Inr out" and "\<not> is_empty df" and "well_formed df"
    and "set [''R1_path'', ''R1_md5sum'', ''R2_path'', ''R2_md5sum''] \<inter> set (columns df) = {}"
  shows "columns out = final_cols
    \<and> (\<forall>r \<in> set (rows out). length r = length final_cols)
    \<and> sorted (map (key_of sort_cols (columns out)) (rows out))"
proof -
  let ?S = "sort_key (key_of sort_cols merged_cols)
              (map norm_row (merged_rows (columns df) (reads ''R1'' df) (reads ''R2'' df)))"
  from rearrange_rows[OF assms(3,2,4)] assms(1)
  have out: "out = \<lparr>columns = final_cols, rows = map final_proj ?S\<rparr>"
    by (simp split: if_splits)
  have c: "columns out = final_cols" by (simp add: out)
  have l: "\<forall>r \<in> set (rows out). length r = length final_cols"
    by (auto simp: out final_proj_def)
  have k: "key_of sort_cols final_cols (final_proj r) = key_of sort_cols merged_cols r" for r
    unfolding final_proj_def by (rule key_of_select[OF sort_cols_final])
  have "map (key_of sort_cols final_cols) (map final_proj ?S)
        = map (\<lambda>r. key_of sort_cols final_cols (final_proj r)) ?S" by (simp add: o_def)
  also have "\<dots> = map (key_of sort_cols merged_cols) ?S" unfolding k by (rule refl)
  finally have "sorted (map (key_of sort_cols final_cols) (map final_proj ?S))
        \<longleftrightarrow> sorted (map (key_of sort_cols merged_cols) ?S)" by (rule arg_cong)
  moreover have "sorted (map (key_of sort_cols merged_cols) ?S)" by (rule sorted_sort_key)
  ultimately have "sorted (map (key_of sort_cols final_cols) (map final_proj ?S))" by blast
  then have "sorted (map (key_of sort_cols (columns out)) (rows out))" by (simp add: out)
  with c l show ?thesis by (intro conjI)
qed

theorem output_sorted_and_projected_witness:
  "rearrange_sequence_files example_files = Inr example_pairs \<and> \<not> is_empty example_files
   \<and> well_formed example_files
   \<and> set [''R1_path'', ''R1_md5sum'', ''R2_path'', ''R2_md5sum''] \<inter> set (columns example_files) = {}
   \<and> columns example_pairs = final_cols
   \<and> sorted (map (key_of sort_cols (columns example_pairs)) (rows example_pairs))"
proof -
  have h: "rearrange_sequence_files example_files = Inr example_pairs" by code_simp
  have n: "\<not> is_empty example_files" by code_simp
  have w: "well_formed example_files" by code_simp
  have r: "set [''R1_path'', ''R1_md5sum'', ''R2_path'', ''R2_md5sum''] \<inter> set (columns example_files) = {}"
    by code_simp
  from output_sorted_and_projected[OF h n w r] h n w r show ?thesis by blast
qed

text \<open>
  The hypothesis on the labels cannot be dropped. The renaming of lines 84 and 85 gives a
  table that already has a column \<^verbatim>\<open>R1_path\<close> a second column of that label, and the
  selections of lines 88, 89 and 113 keep every column that carries a requested label.
\<close>

lemma reserved_label_is_kept_twice:
  "(case rearrange_sequence_files example_with_path of
      Inl e \<Rightarrow> False
    | Inr out \<Rightarrow> columns out = ''R1_path'' # final_cols)"
  by code_simp

section \<open>Seqspec values without a configuration-file segment\<close>

lemma map_of_zip_mapped:
  "map_of (zip cs (map (\<lambda>(l, v). h l v) (zip cs r))) x = map_option (h x) (map_of (zip cs r) x)"
proof (induction cs arbitrary: r)
  case Nil
  then show ?case by simp
next
  case (Cons c cs)
  then show ?case by (cases r) simp_all
qed

lemma map_of_zip_present:
  assumes "x \<in> set cs" "length r = length cs"
  shows "\<exists>v. map_of (zip cs r) x = Some v"
proof -
  from assms have "x \<in> fst ` set (zip cs r)"
    by (metis map_fst_zip set_map)
  then show ?thesis by (metis map_of_eq_None_iff not_Some_eq)
qed

lemma cell_of_mapped_row:
  assumes "x \<in> set cs" "length r = length cs"
  shows "cell_of cs (map (\<lambda>(l, v). h l v) (zip cs r)) x = h x (cell_of cs r x)"
proof -
  from map_of_zip_present[OF assms] obtain v where v: "map_of (zip cs r) x = Some v" by blast
  then show ?thesis by (simp add: cell_of_def map_of_zip_mapped)
qed

lemma process_seqspecs_cell:
  assumes wf: "well_formed df" and s: "''Seqspecs'' \<in> set (columns df)" and i: "i < length (rows df)"
  shows "cell_of (columns df) (rows (process_seqspecs df) ! i) ''Seqspecs''
         = normalize_seqspec (cell_of (columns df) (rows df ! i) ''Seqspecs'')"
proof -
  let ?cs = "columns df"
  let ?h = "\<lambda>l v. if l = ''Seqspecs'' then normalize_seqspec v else v"
  have df: "df = \<lparr>columns = ?cs, rows = rows df\<rparr>" by simp
  have "process_seqspecs df = \<lparr>columns = ?cs, rows = map (\<lambda>r. map (\<lambda>(l, v). ?h l v) (zip ?cs r)) (rows df)\<rparr>"
    by (subst df) (rule process_seqspecs_rows[OF s])
  then have "rows (process_seqspecs df) ! i = map (\<lambda>(l, v). ?h l v) (zip ?cs (rows df ! i))"
    using i by simp
  moreover have "length (rows df ! i) = length ?cs"
    using wf i by (simp add: well_formed_def)
  ultimately show ?thesis
    using cell_of_mapped_row[OF s, of "rows df ! i" ?h] by simp
qed

text \<open>
  Claim C10. Take a table with a Seqspecs column and one of its rows. If the value of the
  row is non-empty when line 102 tests it, that is after line 101 has turned it into a string
  and replaced \<^verbatim>\<open>nan\<close> by the empty string, and this string has no non-empty,
  slash-free segment between \<^verbatim>\<open>/configuration-files/\<close> and a following
  \<^verbatim>\<open>/\<close>, then lines 100 to 103 leave \<^verbatim>\<open>NaN\<close> in the Seqspecs cell of the row:
  neither the empty string nor the original value.
\<close>

theorem unmatched_seqspec_is_null:
  assumes "well_formed df" and "''Seqspecs'' \<in> set (columns df)" and "i < length (rows df)"
    and "astype_str_replace_nan (cell_of (columns df) (rows df ! i) ''Seqspecs'') = Str s"
    and "s \<noteq> []"
    and "\<not> (\<exists>a g b. s = a @ cfg_prefix @ g @ CHR ''/'' # b \<and> g \<noteq> [] \<and> CHR ''/'' \<notin> set g)"
  shows "normalize_seqspec (cell_of (columns df) (rows df ! i) ''Seqspecs'') = NaN
    \<and> cell_of (columns df) (rows (process_seqspecs df) ! i) ''Seqspecs'' = NaN"
proof -
  from assms(6) have "search cfg_prefix s = None" by (rule iffD2[OF search_None_iff])
  with assms(4,5) have "normalize_seqspec (cell_of (columns df) (rows df ! i) ''Seqspecs'') = NaN"
    by (simp add: normalize_seqspec_def extract_nonempty_def str_extract_def)
  with process_seqspecs_cell[OF assms(1-3)] show ?thesis by simp
qed

theorem unmatched_seqspec_is_null_witness:
  "well_formed example_files \<and> ''Seqspecs'' \<in> set (columns example_files)
   \<and> 2 < length (rows example_files)
   \<and> astype_str_replace_nan (cell_of (columns example_files) (rows example_files ! 2) ''Seqspecs'')
       = Str ''abc''
   \<and> normalize_seqspec (cell_of (columns example_files) (rows example_files ! 2) ''Seqspecs'') = NaN
   \<and> cell_of (columns example_files) (rows (process_seqspecs example_files) ! 2) ''Seqspecs'' = NaN"
proof -
  have h1: "well_formed example_files" by code_simp
  have h2: "''Seqspecs'' \<in> set (columns example_files)" by code_simp
  have h3: "2 < length (rows example_files)" by code_simp
  have h4: "astype_str_replace_nan (cell_of (columns example_files) (rows example_files ! 2) ''Seqspecs'')
       = Str ''abc''" by code_simp
  have h5: "''abc'' \<noteq> []" by simp
  have "search cfg_prefix ''abc'' = None" by code_simp
  then have h6: "\<not> (\<exists>a g b. ''abc'' = a @ cfg_prefix @ g @ CHR ''/'' # b \<and> g \<noteq> [] \<and> CHR ''/'' \<notin> set g)"
    by (rule iffD1[OF search_None_iff])
  from unmatched_seqspec_is_null[OF h1 h2 h3 h4 h5 h6] h1 h2 h3 h4 show ?thesis by (intro conjI) simp_all
qed

section \<open>Properties of the fetcher\<close>

lemma filter_dropWhile: "filter (\<lambda>x. \<not> p x) (dropWhile p xs) = filter (\<lambda>x. \<not> p x) xs"
  by (induction xs) auto

lemma strip_trimmed: "strip s = [] \<or> (\<not> is_space (hd (strip s)) \<and> \<not> is_space (last (strip s)))"
proof (cases "strip s = []")
  case True
  then show ?thesis by simp
next
  case False
  define t where "t = dropWhile is_space s"
  define u where "u = dropWhile is_space (rev t)"
  have s: "strip s = rev u" by (simp add: strip_def t_def u_def)
  with False have une: "u \<noteq> []" by simp
  then have "\<not> is_space (hd u)" unfolding u_def by (rule hd_dropWhile)
  with une have l: "\<not> is_space (last (strip s))" by (simp add: s last_rev)
  have "rev t = takeWhile is_space (rev t) @ u" by (simp add: u_def)
  with une have "last (rev t) = last u" by (metis last_appendR)
  moreover from une have tne: "t \<noteq> []" by (auto simp: u_def)
  ultimately have "hd t = last u" by (simp add: last_rev)
  moreover from tne have "\<not> is_space (hd t)" unfolding t_def by (rule hd_dropWhile)
  ultimately have "\<not> is_space (hd (strip s))" using une by (simp add: s hd_rev)
  with l show ?thesis by simp
qed

text \<open>
  Claim C2, as amended. When the request succeeds and the parser accepts its input, the text the
  parser receives is the lines of the body that do not start with \<^verbatim>\<open>20\<close>, joined by
  newlines: every line starting with \<^verbatim>\<open>20\<close> is discarded, the leading ones and any
  later one. What is passed on is therefore the remainder after the leading timestamp lines
  with its own lines starting with \<^verbatim>\<open>20\<close> removed, and it is that remainder only when
  no later line starts with \<^verbatim>\<open>20\<close>. The labels of the returned table are the parsed
  labels with the white space at both ends removed.
\<close>

theorem timestamp_lines:
  assumes "http_get url = Some text" and "read_csv (tsv_data text) = Inr d"
  shows "fetch_data read_csv http_get url = Inr (d\<lparr>columns := map strip (columns d)\<rparr>)
    \<and> tsv_data text = join_with [CHR 0x0A] (kept_lines text)
    \<and> kept_lines text = filter (\<lambda>line. \<not> starts_with ''20'' line) (lines_after_leading_timestamps text)
    \<and> (\<forall>line \<in> set (kept_lines text). \<not> starts_with ''20'' line)
    \<and> (kept_lines text = lines_after_leading_timestamps text
         \<longleftrightarrow> (\<forall>line \<in> set (lines_after_leading_timestamps text). \<not> starts_with ''20'' line))
    \<and> (\<forall>c \<in> set (map strip (columns d)). c = [] \<or> (\<not> is_space (hd c) \<and> \<not> is_space (last c)))"
proof -
  have 1: "fetch_data read_csv http_get url = Inr (d\<lparr>columns := map strip (columns d)\<rparr>)"
    using assms by (simp add: fetch_data_def)
  have 2: "tsv_data text = join_with [CHR 0x0A] (kept_lines text)" by (simp add: tsv_data_def)
  have 3: "kept_lines text = filter (\<lambda>line. \<not> starts_with ''20'' line) (lines_after_leading_timestamps text)"
    unfolding kept_lines_def lines_after_leading_timestamps_def filter_dropWhile by (rule refl)
  have 4: "\<forall>line \<in> set (kept_lines text). \<not> starts_with ''20'' line"
    unfolding kept_lines_def by simp
  have 5: "kept_lines text = lines_after_leading_timestamps text
         \<longleftrightarrow> (\<forall>line \<in> set (lines_after_leading_timestamps text). \<not> starts_with ''20'' line)"
    unfolding 3 by (rule filter_id_conv)
  have 6: "\<forall>c \<in> set (map strip (columns d)). c = [] \<or> (\<not> is_space (hd c) \<and> \<not> is_space (last c))"
    using strip_trimmed by auto
  from 1 2 3 4 5 6 show ?thesis by (intro conjI)
qed

theorem timestamp_lines_witness:
  "example_http ''u'' = Some example_body
   \<and> example_parser (tsv_data example_body) = Inr \<lparr>columns = ['' ID'', ''Lane ''], rows = []\<rparr>
   \<and> fetch_data example_parser example_http ''u''
       = Inr \<lparr>columns = [''ID'', ''Lane''], rows = []\<rparr>"
proof -
  have h1: "example_http ''u'' = Some example_body" by (simp add: example_http_def)
  have h2: "example_parser (tsv_data example_body) = Inr \<lparr>columns = ['' ID'', ''Lane ''], rows = []\<rparr>"
    by (simp add: example_parser_def)
  have s: "strip '' ID'' = ''ID''" "strip ''Lane '' = ''Lane''" by code_simp+
  from h1 h2 timestamp_lines[of example_http "''u''" example_body example_parser
      "\<lparr>columns = ['' ID'', ''Lane ''], rows = []\<rparr>"]
  have "fetch_data example_parser example_http ''u''
       = Inr (\<lparr>columns = ['' ID'', ''Lane ''], rows = []\<rparr>\<lparr>columns := map strip (columns \<lparr>columns = ['' ID'', ''Lane ''], rows = []\<rparr>)\<rparr>)"
    by blast
  then have "fetch_data example_parser example_http ''u''
       = Inr \<lparr>columns = [''ID'', ''Lane''], rows = []\<rparr>"
    by (simp add: s)
  with h1 h2 show ?thesis by (intro conjI)
qed

text \<open>
  The claim as stated fails: in \<open>example_body\<close> the data row after the header starts with
  \<^verbatim>\<open>20\<close>; it stands after the leading timestamp line, and the parser does not receive it.
\<close>

theorem timestamp_lines_counterexample:
  "lines_after_leading_timestamps example_body
     = [''ID'' @ [CHR 0x09] @ ''Lane'', ''2024A'' @ [CHR 0x09] @ ''1'', []]
   \<and> kept_lines example_body = [''ID'' @ [CHR 0x09] @ ''Lane'', []]"
  by code_simp

section \<open>Properties of the Enumerator\<close>

lemma split_on_length: "length (split_on c s) = Suc (length (filter (\<lambda>x. x = c) s))"
  by (induction s) (auto split: list.splits)

lemma split_on_two: "2 \<le> length (split_on c s) \<longleftrightarrow> c \<in> set s"
proof -
  have "2 \<le> length (split_on c s) \<longleftrightarrow> filter (\<lambda>x. x = c) s \<noteq> []"
    by (cases "filter (\<lambda>x. x = c) s") (simp_all add: split_on_length)
  also have "\<dots> \<longleftrightarrow> c \<in> set s" by (auto simp: filter_empty_conv)
  finally show ?thesis .
qed

lemma aux_id_of_error_iff: "aux_id_of s = Inl IndexError \<longleftrightarrow> CHR ''/'' \<notin> set s"
  by (simp add: aux_id_of_def Let_def split_on_two)

lemma aux_id_of_cases:
  "aux_id_of s = (if CHR ''/'' \<in> set s
     then Inr (split_on CHR ''/'' s ! (length (split_on CHR ''/'' s) - 2))
     else Inl IndexError)"
  by (simp add: aux_id_of_def Let_def split_on_two)

lemma query_aux_ok:
  "aux_id_of s = Inr a \<Longrightarrow> fetch (auxiliary_url a) = Inr d \<Longrightarrow>
     query_aux fetch mid ty s = ([auxiliary_url a], Inr (tag_table mid ty d))"
  by (simp add: query_aux_def)

lemma query_aux_Inr_slash:
  "query_aux fetch mid ty s = (log, Inr t) \<Longrightarrow> CHR ''/'' \<in> set s"
proof (rule ccontr)
  assume q: "query_aux fetch mid ty s = (log, Inr t)" and "CHR ''/'' \<notin> set s"
  then have "aux_id_of s = Inl IndexError" by (simp add: aux_id_of_error_iff)
  with q show False by (simp add: query_aux_def)
qed

lemma query_aux_index_error:
  "CHR ''/'' \<notin> set s \<Longrightarrow> query_aux fetch mid ty s = ([], Inl IndexError)"
  using aux_id_of_error_iff[of s] by (simp add: query_aux_def)

lemma aux_tables_beyond_second:
  "aux_tables fetch mid (s1 # s2 # rest) = aux_tables fetch mid [s1, s2]"
  by (simp add: aux_tables_def aux_types_def)

lemma aux_tables_two:
  assumes "aux_id_of s1 = Inr a1" "fetch (auxiliary_url a1) = Inr d1"
    and "aux_id_of s2 = Inr a2" "fetch (auxiliary_url a2) = Inr d2"
  shows "aux_tables fetch mid (s1 # s2 # rest)
         = ([auxiliary_url a1, auxiliary_url a2],
            Inr [tag_table mid ''gRNA'' d1, tag_table mid ''hash'' d2])"
  using assms query_aux_ok[where fetch = fetch and s = s1 and a = a1 and d = d1 and mid = mid and ty = "''gRNA''"]
    query_aux_ok[where fetch = fetch and s = s2 and a = a2 and d = d2 and mid = mid and ty = "''hash''"]
  by (simp add: aux_tables_def aux_types_def)

lemma aux_tables_one:
  assumes "aux_id_of s1 = Inr a1" "fetch (auxiliary_url a1) = Inr d1"
  shows "aux_tables fetch mid [s1] = ([auxiliary_url a1], Inr [tag_table mid ''gRNA'' d1])"
  using assms query_aux_ok[where fetch = fetch and s = s1 and a = a1 and d = d1 and mid = mid and ty = "''gRNA''"]
  by (simp add: aux_tables_def)

lemma aux_tables_Inr_slash:
  assumes "aux_tables fetch mid ss = (log, Inr ts)"
  shows "\<forall>s \<in> set (take 2 ss). CHR ''/'' \<in> set s"
proof (cases ss)
  case Nil
  then show ?thesis by simp
next
  case (Cons s1 r1)
  show ?thesis
  proof (cases r1)
    case Nil
    with Cons assms obtain l t where "query_aux fetch mid ''gRNA'' s1 = (l, Inr t)"
      by (auto simp: aux_tables_def split: prod.splits sum.splits)
    from query_aux_Inr_slash[OF this] Cons Nil show ?thesis by simp
  next
    case (Cons s2 r2)
    with \<open>ss = s1 # r1\<close> assms have
      "aux_loop fetch mid [(''gRNA'', s1), (''hash'', s2)] = (log, Inr ts)"
      by (simp add: aux_tables_def aux_types_def)
    then obtain l1 t1 l2 t2 where "query_aux fetch mid ''gRNA'' s1 = (l1, Inr t1)"
      "query_aux fetch mid ''hash'' s2 = (l2, Inr t2)"
      by (auto split: prod.splits sum.splits)
    from query_aux_Inr_slash[OF this(1)] query_aux_Inr_slash[OF this(2)] Cons \<open>ss = s1 # r1\<close>
    show ?thesis by simp
  qed
qed

lemma aux_tables_index_error:
  assumes ok: "\<forall>u. \<exists>d. fetch u = Inr d" and bad: "\<exists>s \<in> set (take 2 ss). CHR ''/'' \<notin> set s"
  shows "snd (aux_tables fetch mid ss) = Inl IndexError"
proof (cases ss)
  case Nil
  with bad show ?thesis by simp
next
  case (Cons s1 r1)
  have q: "snd (query_aux fetch mid ty s) = (if CHR ''/'' \<in> set s then snd (query_aux fetch mid ty s) else Inl IndexError)" for ty s
    by (simp add: query_aux_index_error)
  have qok: "CHR ''/'' \<in> set s \<Longrightarrow> \<exists>l t. query_aux fetch mid ty s = (l, Inr t)" for ty s
  proof -
    assume "CHR ''/'' \<in> set s"
    then obtain a where a: "aux_id_of s = Inr a" by (simp add: aux_id_of_cases)
    from ok obtain d where "fetch (auxiliary_url a) = Inr d" by blast
    with a query_aux_ok[where fetch = fetch and s = s and a = a and d = d and mid = mid and ty = ty]
    show ?thesis by blast
  qed
  show ?thesis
  proof (cases r1)
    case Nil
    with Cons bad have "CHR ''/'' \<notin> set s1" by simp
    with Cons Nil show ?thesis by (simp add: aux_tables_def query_aux_index_error)
  next
    case (Cons s2 r2)
    with \<open>ss = s1 # r1\<close> have at: "aux_tables fetch mid ss = aux_loop fetch mid [(''gRNA'', s1), (''hash'', s2)]"
      by (simp add: aux_tables_def aux_types_def)
    show ?thesis
    proof (cases "CHR ''/'' \<in> set s1")
      case False
      then show ?thesis unfolding at by (simp add: query_aux_index_error)
    next
      case True
      with bad Cons \<open>ss = s1 # r1\<close> have s2: "CHR ''/'' \<notin> set s2" by auto
      from qok[OF True] obtain l t where "query_aux fetch mid ''gRNA'' s1 = (l, Inr t)" by blast
      with s2 show ?thesis unfolding at by (simp add: query_aux_index_error)
    qed
  qed
qed

lemma set_column_wf: "well_formed d \<Longrightarrow> well_formed (set_column c v d)"
  by (auto simp: well_formed_def set_column_def map_column_def)

lemma cell_of_appended:
  assumes "length r = length cs"
  shows "cell_of (cs @ [c]) (r @ [v]) x = (if x \<in> set cs then cell_of cs r x else if x = c then v else NaN)"
proof -
  have z: "zip (cs @ [c]) (r @ [v]) = zip cs r @ [(c, v)]" using assms by simp
  show ?thesis
  proof (cases "x \<in> set cs")
    case True
    from map_of_zip_present[OF True assms] obtain w where "map_of (zip cs r) x = Some w" by blast
    with True show ?thesis by (simp add: cell_of_def z map_add_def)
  next
    case False
    then have "x \<notin> fst ` set (zip cs r)" by (auto dest: set_zip_leftD)
    then have "map_of (zip cs r) x = None" by (simp add: map_of_eq_None_iff)
    with False show ?thesis by (simp add: cell_of_def z map_add_def)
  qed
qed

lemma set_column_cell:
  assumes wf: "well_formed d" and r: "r \<in> set (rows (set_column c v d))"
  shows "cell_of (columns (set_column c v d)) r c = v"
proof (cases "c \<in> set (columns d)")
  case True
  with r obtain r0 where r0: "r0 \<in> set (rows d)"
    and e: "r = map (\<lambda>(l, x). if l = c then v else x) (zip (columns d) r0)"
    by (auto simp: set_column_def map_column_def)
  from wf r0 have len: "length r0 = length (columns d)" by (simp add: well_formed_def)
  have cols: "columns (set_column c v d) = columns d"
    using True by (simp add: set_column_def map_column_def)
  show ?thesis
    unfolding cols e using cell_of_mapped_row[OF True len, of "\<lambda>l x. if l = c then v else x"] by simp
next
  case False
  with r obtain r0 where r0: "r0 \<in> set (rows d)" and e: "r = r0 @ [v]"
    by (auto simp: set_column_def)
  from wf r0 have len: "length r0 = length (columns d)" by (simp add: well_formed_def)
  have cols: "columns (set_column c v d) = columns d @ [c]"
    using False by (simp add: set_column_def)
  show ?thesis unfolding cols e using False by (simp add: cell_of_appended[OF len])
qed

lemma tag_table_label:
  assumes "well_formed d"
  shows "\<forall>r \<in> set (rows (tag_table mid label d)).
           cell_of (columns (tag_table mid label d)) r ''file_modality'' = Str label"
  unfolding tag_table_def
  using set_column_cell[OF set_column_wf[OF assms]] by blast

lemma link_tables_ok:
  assumes ms: "''measurement_sets'' \<in> set cs" and au: "''associated_auxiliary_sets'' \<in> set cs"
    and present: "cell_of cs row ''associated_auxiliary_sets'' \<noteq> NaN"
    and f0: "fetch (measurement_url (py_str (cell_of cs row ''measurement_sets''))) = Inr d0"
    and at: "aux_tables fetch (cell_of cs row ''measurement_sets'')
               (split_aux_sets (cell_of cs row ''associated_auxiliary_sets'')) = (log, Inr ts)"
  shows "link_tables fetch cs row
         = (measurement_url (py_str (cell_of cs row ''measurement_sets'')) # log,
            Inr (tag_table (cell_of cs row ''measurement_sets'') ''scRNA'' d0 # ts))"
  using assms by (simp add: link_tables_def Let_def)

lemma link_tables_Inr:
  assumes "link_tables fetch cs row = (log, Inr ts)"
    and "cell_of cs row ''associated_auxiliary_sets'' \<noteq> NaN"
  shows "\<exists>l t. aux_tables fetch (cell_of cs row ''measurement_sets'')
               (split_aux_sets (cell_of cs row ''associated_auxiliary_sets'')) = (l, Inr t)"
  using assms
  by (auto simp: link_tables_def Let_def split: if_splits sum.splits prod.splits)

lemma link_tables_index_error:
  assumes ok: "\<forall>u. \<exists>d. fetch u = Inr d"
    and ms: "''measurement_sets'' \<in> set cs" and au: "''associated_auxiliary_sets'' \<in> set cs"
    and present: "cell_of cs row ''associated_auxiliary_sets'' \<noteq> NaN"
    and bad: "\<exists>s \<in> set (take 2 (split_aux_sets (cell_of cs row ''associated_auxiliary_sets''))).
                CHR ''/'' \<notin> set s"
  shows "snd (link_tables fetch cs row) = Inl IndexError"
proof -
  from ok obtain d0 where f0: "fetch (measurement_url (py_str (cell_of cs row ''measurement_sets''))) = Inr d0"
    by blast
  from aux_tables_index_error[OF ok bad, of "cell_of cs row ''measurement_sets''"]
  obtain l where "aux_tables fetch (cell_of cs row ''measurement_sets'')
               (split_aux_sets (cell_of cs row ''associated_auxiliary_sets'')) = (l, Inl IndexError)"
    by (metis prod.collapse)
  with ms au present f0 show ?thesis by (simp add: link_tables_def Let_def)
qed

lemma all_link_tables_Inr:
  "all_link_tables fetch cs rs = (log, Inr ts) \<Longrightarrow> row \<in> set rs \<Longrightarrow>
     \<exists>l t. link_tables fetch cs row = (l, Inr t)"
proof (induction rs arbitrary: log ts)
  case Nil
  then show ?case by simp
next
  case (Cons r rs)
  from Cons.prems(1) obtain l1 t1 l2 t2 where 1: "link_tables fetch cs r = (l1, Inr t1)"
    and 2: "all_link_tables fetch cs rs = (l2, Inr t2)"
    by (auto split: prod.splits sum.splits)
  show ?case
  proof (cases "row = r")
    case True
    with 1 show ?thesis by blast
  next
    case False
    with Cons.prems(2) have "row \<in> set rs" by simp
    from Cons.IH[OF 2 this] show ?thesis .
  qed
qed

lemma get_sequence_files_Inr:
  assumes "snd (get_sequence_files fetch result) = Inr out" and "row \<in> set (rows result)"
  shows "\<exists>l t. link_tables fetch (columns result) row = (l, Inr t)"
proof -
  from assms(1) obtain log ts where "all_link_tables fetch (columns result) (rows result) = (log, Inr ts)"
    by (auto simp: get_sequence_files_def split: prod.splits sum.splits)
  from all_link_tables_Inr[OF this assms(2)] show ?thesis .
qed

lemma example_fetch_table: "example_fetch url = Inr example_table"
  by (simp add: example_fetch_def example_table_def)

lemma set_column_columns: "set (columns (set_column c v d)) = insert c (set (columns d))"
  by (auto simp: set_column_def map_column_def)

lemma set_column_copy:
  assumes wf: "well_formed d" and f: "f \<in> set (rows d)"
  shows "\<exists>r \<in> set (rows (set_column c v d)).
           \<forall>x. cell_of (columns (set_column c v d)) r x = (if x = c then v else cell_of (columns d) f x)"
proof (cases "c \<in> set (columns d)")
  case True
  let ?h = "\<lambda>l x. if l = c then v else x"
  let ?r = "map (\<lambda>(l, x). ?h l x) (zip (columns d) f)"
  from wf f have len: "length f = length (columns d)" by (simp add: well_formed_def)
  have cols: "columns (set_column c v d) = columns d"
    using True by (simp add: set_column_def map_column_def)
  have mem: "?r \<in> set (rows (set_column c v d))"
    using True f by (simp add: set_column_def map_column_def image_iff) blast
  have "cell_of (columns d) ?r x = (if x = c then v else cell_of (columns d) f x)" for x
  proof (cases "x \<in> set (columns d)")
    case True
    from cell_of_mapped_row[OF True len, of ?h] show ?thesis by simp
  next
    case False
    with \<open>c \<in> set (columns d)\<close> have "x \<noteq> c" by auto
    with False show ?thesis by (simp add: cell_of_absent)
  qed
  with mem show ?thesis unfolding cols by blast
next
  case False
  from wf f have len: "length f = length (columns d)" by (simp add: well_formed_def)
  have cols: "columns (set_column c v d) = columns d @ [c]"
    using False by (simp add: set_column_def)
  have mem: "f @ [v] \<in> set (rows (set_column c v d))"
    using False f by (simp add: set_column_def)
  have "cell_of (columns d @ [c]) (f @ [v]) x = (if x = c then v else cell_of (columns d) f x)" for x
    using False by (auto simp: cell_of_appended[OF len] cell_of_absent)
  with mem show ?thesis unfolding cols by blast
qed

lemma tag_table_copy:
  assumes wf: "well_formed d" and f: "f \<in> set (rows d)"
  shows "\<exists>r \<in> set (rows (tag_table mid label d)).
           \<forall>x. cell_of (columns (tag_table mid label d)) r x
                = (if x = ''file_modality'' then Str label
                   else if x = ''measurement_sets'' then mid else cell_of (columns d) f x)"
proof -
  let ?d1 = "set_column ''measurement_sets'' mid d"
  from set_column_copy[OF wf f, of "''measurement_sets''" mid] obtain r1 where
    r1: "r1 \<in> set (rows ?d1)"
    and c1: "\<forall>x. cell_of (columns ?d1) r1 x = (if x = ''measurement_sets'' then mid else cell_of (columns d) f x)"
    by blast
  have wf1: "well_formed ?d1" using wf by (rule set_column_wf)
  from set_column_copy[OF wf1 r1, of "''file_modality''" "Str label"] obtain r2 where
    r2: "r2 \<in> set (rows (set_column ''file_modality'' (Str label) ?d1))"
    and c2: "\<forall>x. cell_of (columns (set_column ''file_modality'' (Str label) ?d1)) r2 x
               = (if x = ''file_modality'' then Str label else cell_of (columns ?d1) r1 x)"
    by blast
  have "cell_of (columns (set_column ''file_modality'' (Str label) ?d1)) r2 x
          = (if x = ''file_modality'' then Str label
             else if x = ''measurement_sets'' then mid else cell_of (columns d) f x)" for x
    by (simp only: c2[rule_format] c1[rule_format])
  with r2 show ?thesis unfolding tag_table_def by blast
qed

lemma tag_table_columns:
  "set (columns (tag_table mid label d)) = {''file_modality'', ''measurement_sets''} \<union> set (columns d)"
  by (auto simp: tag_table_def set_column_columns)

lemma set_union_columns_aux:
  "set (foldl (\<lambda>acc cs. acc @ filter (\<lambda>c. c \<notin> set acc) cs) a css) = set a \<union> \<Union> (set ` set css)"
  by (induction css arbitrary: a) auto

lemma set_union_columns: "set (union_columns css) = \<Union> (set ` set css)"
  by (simp add: union_columns_def set_union_columns_aux)

lemma concat_frames_copy:
  assumes t: "t \<in> set ts" and r: "r \<in> set (rows t)"
  shows "\<exists>w \<in> set (rows (concat_frames ts)).
           \<forall>c \<in> set (columns t). cell_of (columns (concat_frames ts)) w c = cell_of (columns t) r c"
proof -
  let ?cs = "union_columns (map columns ts)"
  let ?w = "map (cell_of (columns t) r) ?cs"
  have cols: "columns (concat_frames ts) = ?cs" by (simp add: concat_frames_def Let_def)
  have sub: "set (columns t) \<subseteq> set ?cs" using t by (auto simp: set_union_columns)
  have mem: "?w \<in> set (rows (concat_frames ts))"
    using t r by (auto simp: concat_frames_def Let_def)
  have "\<forall>c \<in> set (columns t). cell_of ?cs ?w c = cell_of (columns t) r c"
    using sub by (auto simp: cell_of_map)
  with mem show ?thesis unfolding cols by blast
qed

lemma all_link_tables_all:
  assumes "\<forall>r \<in> set rs. \<exists>l ts. link_tables fetch cs r = (l, Inr ts)"
  shows "all_link_tables fetch cs rs
         = (concat (map (\<lambda>r. fst (link_tables fetch cs r)) rs),
            Inr (concat (map (\<lambda>r. projr (snd (link_tables fetch cs r))) rs)))"
  using assms
proof (induction rs)
  case Nil
  then show ?case by simp
next
  case (Cons r rs)
  from Cons.prems obtain l ts where lt: "link_tables fetch cs r = (l, Inr ts)" by auto
  from Cons.prems have "\<forall>r \<in> set rs. \<exists>l ts. link_tables fetch cs r = (l, Inr ts)" by simp
  from Cons.IH[OF this] lt show ?case by simp
qed

lemma ne_mem_lemma: "x \<in> set xs \<Longrightarrow> xs \<noteq> []"
  by (cases xs) simp_all

lemma get_sequence_files_all:
  assumes all: "\<forall>r \<in> set (rows result). \<exists>l ts. link_tables fetch (columns result) r = (l, Inr ts)"
    and row: "row \<in> set (rows result)"
    and lt: "link_tables fetch (columns result) row = (l, Inr ts)" and ne: "ts \<noteq> []"
  shows "\<exists>tables. get_sequence_files fetch result
           = (concat (map (\<lambda>r. fst (link_tables fetch (columns result) r)) (rows result)),
              Inr (concat_frames tables)) \<and> set ts \<subseteq> set tables"
proof -
  let ?T = "concat (map (\<lambda>r. projr (snd (link_tables fetch (columns result) r))) (rows result))"
  from row lt have sub: "set ts \<subseteq> set ?T" by force
  from ne obtain t where "t \<in> set ts" by (cases ts) auto
  with sub have "t \<in> set ?T" by (rule subsetD)
  then have "?T \<noteq> []" by (rule ne_mem_lemma)
  with all_link_tables_all[OF all] have
    "get_sequence_files fetch result
       = (concat (map (\<lambda>r. fst (link_tables fetch (columns result) r)) (rows result)),
          Inr (concat_frames ?T))"
    by (simp add: get_sequence_files_def)
  with sub show ?thesis by blast
qed

lemma labelled_copy:
  assumes t: "tag_table mid label d \<in> set tables" and wf: "well_formed d" and f: "f \<in> set (rows d)"
  shows "\<exists>w \<in> set (rows (concat_frames tables)).
           cell_of (columns (concat_frames tables)) w ''file_modality'' = Str label
           \<and> cell_of (columns (concat_frames tables)) w ''measurement_sets'' = mid
           \<and> (\<forall>c \<in> set (columns d). c \<noteq> ''file_modality'' \<and> c \<noteq> ''measurement_sets''
                 \<longrightarrow> cell_of (columns (concat_frames tables)) w c = cell_of (columns d) f c)"
proof -
  let ?t = "tag_table mid label d"
  from tag_table_copy[OF wf f, of mid label] obtain r where r: "r \<in> set (rows ?t)"
    and c: "\<forall>x. cell_of (columns ?t) r x
                = (if x = ''file_modality'' then Str label
                   else if x = ''measurement_sets'' then mid else cell_of (columns d) f x)"
    by blast
  from concat_frames_copy[OF t r] obtain w' where o: "w' \<in> set (rows (concat_frames tables))"
    and k: "\<forall>c \<in> set (columns ?t). cell_of (columns (concat_frames tables)) w' c = cell_of (columns ?t) r c"
    by blast
  have 1: "cell_of (columns (concat_frames tables)) w' ''file_modality'' = Str label"
    using k c by (simp add: tag_table_columns)
  have 2: "cell_of (columns (concat_frames tables)) w' ''measurement_sets'' = mid"
    using k c by (simp add: tag_table_columns)
  have 3: "\<forall>c \<in> set (columns d). c \<noteq> ''file_modality'' \<and> c \<noteq> ''measurement_sets''
                 \<longrightarrow> cell_of (columns (concat_frames tables)) w' c = cell_of (columns d) f c"
    using k c by (simp add: tag_table_columns)
  from o 1 2 3 show ?thesis by blast
qed

text \<open>
  Claim C3. Take a link of the input whose auxiliary-set field is present, whose
  measurement-set request succeeds, and whose first two references (or only reference) are
  paths whose requests succeed; let the other links of the input succeed too. Then the
  Enumerator returns, and its requests are those of the links in order.

  \<^item> Every file of the first auxiliary set is in the output: a row that has
    \<^verbatim>\<open>gRNA\<close> in \<^verbatim>\<open>file_modality\<close>, the measurement set of the link in
    \<^verbatim>\<open>measurement_sets\<close>, and the cells of the file in every other column of the
    fetched table.
  \<^item> If the field splits into two or more references, the requests for the link are the
    measurement set, the first and the second auxiliary set and nothing else, whatever follows
    the second reference; every file of the second auxiliary set is in the output with
    \<^verbatim>\<open>hash\<close> in \<^verbatim>\<open>file_modality\<close>.
  \<^item> If the field holds one reference, the requests for the link are the measurement set and
    that auxiliary set.
  \<^item> With or without errors, the requests and the result for the auxiliary sets of a link are
    those for its first two references alone.
\<close>

theorem auxiliary_sets_by_position:
  fixes result :: dataframe and measurement_id :: cell
  defines "labelled \<equiv> \<lambda>out label d f. \<exists>w \<in> set (rows out).
       cell_of (columns out) w ''file_modality'' = Str label
       \<and> cell_of (columns out) w ''measurement_sets'' = measurement_id
       \<and> (\<forall>c \<in> set (columns d). c \<noteq> ''file_modality'' \<and> c \<noteq> ''measurement_sets''
             \<longrightarrow> cell_of (columns out) w c = cell_of (columns d) f c)"
  assumes row: "row \<in> set (rows result)"
    and others: "\<forall>r \<in> set (rows result). r \<noteq> row \<longrightarrow>
                   (\<exists>l ts. link_tables fetch (columns result) r = (l, Inr ts))"
    and ms: "''measurement_sets'' \<in> set (columns result)"
    and au: "''associated_auxiliary_sets'' \<in> set (columns result)"
    and present: "cell_of (columns result) row ''associated_auxiliary_sets'' \<noteq> NaN"
    and mid: "measurement_id = cell_of (columns result) row ''measurement_sets''"
    and f0: "fetch (measurement_url (py_str measurement_id)) = Inr d0"
    and a1: "aux_id_of s1 = Inr a1" and f1: "fetch (auxiliary_url a1) = Inr d1"
    and wf1: "well_formed d1"
    and a2: "aux_id_of s2 = Inr a2" and f2: "fetch (auxiliary_url a2) = Inr d2"
    and wf2: "well_formed d2"
    and split: "split_aux_sets (cell_of (columns result) row ''associated_auxiliary_sets'')
                  = s1 # s2 # beyond
                \<or> split_aux_sets (cell_of (columns result) row ''associated_auxiliary_sets'') = [s1]"
  shows "(\<exists>log out. get_sequence_files fetch result = (log, Inr out)
      \<and> log = concat (map (\<lambda>r. fst (link_tables fetch (columns result) r)) (rows result))
      \<and> (\<forall>f \<in> set (rows d1). labelled out ''gRNA'' d1 f)
      \<and> (split_aux_sets (cell_of (columns result) row ''associated_auxiliary_sets'')
            = s1 # s2 # beyond \<longrightarrow>
          fst (link_tables fetch (columns result) row)
            = [measurement_url (py_str measurement_id), auxiliary_url a1, auxiliary_url a2]
          \<and> (\<forall>f \<in> set (rows d2). labelled out ''hash'' d2 f))
      \<and> (split_aux_sets (cell_of (columns result) row ''associated_auxiliary_sets'') = [s1] \<longrightarrow>
          fst (link_tables fetch (columns result) row)
            = [measurement_url (py_str measurement_id), auxiliary_url a1]))
    \<and> aux_tables fetch m (t1 # t2 # further) = aux_tables fetch m [t1, t2]"
proof (rule conjI)
  let ?cs = "columns result"
  let ?A = "split_aux_sets (cell_of ?cs row ''associated_auxiliary_sets'')"
  let ?u0 = "measurement_url (py_str measurement_id)"
  let ?logs = "concat (map (\<lambda>r. fst (link_tables fetch ?cs r)) (rows result))"
  have f0': "fetch (measurement_url (py_str (cell_of ?cs row ''measurement_sets''))) = Inr d0"
    using f0 unfolding mid .
  from split show "\<exists>log out. get_sequence_files fetch result = (log, Inr out)
      \<and> log = ?logs
      \<and> (\<forall>f \<in> set (rows d1). labelled out ''gRNA'' d1 f)
      \<and> (?A = s1 # s2 # beyond \<longrightarrow>
          fst (link_tables fetch ?cs row) = [?u0, auxiliary_url a1, auxiliary_url a2]
          \<and> (\<forall>f \<in> set (rows d2). labelled out ''hash'' d2 f))
      \<and> (?A = [s1] \<longrightarrow> fst (link_tables fetch ?cs row) = [?u0, auxiliary_url a1])"
  proof
    assume sp: "?A = s1 # s2 # beyond"
    let ?T = "[tag_table measurement_id ''scRNA'' d0, tag_table measurement_id ''gRNA'' d1,
               tag_table measurement_id ''hash'' d2]"
    have "aux_tables fetch (cell_of ?cs row ''measurement_sets'') ?A
          = ([auxiliary_url a1, auxiliary_url a2],
             Inr [tag_table (cell_of ?cs row ''measurement_sets'') ''gRNA'' d1,
                  tag_table (cell_of ?cs row ''measurement_sets'') ''hash'' d2])"
      unfolding sp using a1 f1 a2 f2 by (rule aux_tables_two)
    from link_tables_ok[OF ms au present f0' this]
    have lt: "link_tables fetch ?cs row = ([?u0, auxiliary_url a1, auxiliary_url a2], Inr ?T)"
      unfolding mid .
    have all: "\<forall>r \<in> set (rows result). \<exists>l ts. link_tables fetch ?cs r = (l, Inr ts)"
    proof (intro ballI)
      fix r assume r: "r \<in> set (rows result)"
      show "\<exists>l ts. link_tables fetch ?cs r = (l, Inr ts)"
      proof (cases "r = row")
        case True
        show ?thesis unfolding True using lt by (intro exI)
      next
        case False
        show ?thesis by (rule others[rule_format, OF r False])
      qed
    qed
    have "?T \<noteq> []" by simp
    from get_sequence_files_all[OF all row lt this] obtain tables where
      g: "get_sequence_files fetch result = (?logs, Inr (concat_frames tables))"
      and sub: "set ?T \<subseteq> set tables" by (elim exE conjE)
    from sub have t1: "tag_table measurement_id ''gRNA'' d1 \<in> set tables"
      and t2: "tag_table measurement_id ''hash'' d2 \<in> set tables" by simp_all
    have l1: "\<forall>f \<in> set (rows d1). labelled (concat_frames tables) ''gRNA'' d1 f"
      unfolding labelled_def by (intro ballI) (rule labelled_copy[OF t1 wf1])
    have l2: "\<forall>f \<in> set (rows d2). labelled (concat_frames tables) ''hash'' d2 f"
      unfolding labelled_def by (intro ballI) (rule labelled_copy[OF t2 wf2])
    have n: "?A \<noteq> [s1]" using sp by simp
    have fl: "fst (link_tables fetch ?cs row) = [?u0, auxiliary_url a1, auxiliary_url a2]"
      unfolding lt by (rule fst_conv)
    show ?thesis
    proof (intro exI conjI impI)
      show "get_sequence_files fetch result = (?logs, Inr (concat_frames tables))" by (rule g)
      show "?logs = ?logs" by (rule refl)
      show "\<forall>f \<in> set (rows d1). labelled (concat_frames tables) ''gRNA'' d1 f" by (rule l1)
      show "fst (link_tables fetch ?cs row) = [?u0, auxiliary_url a1, auxiliary_url a2]" by (rule fl)
      show "\<forall>f \<in> set (rows d2). labelled (concat_frames tables) ''hash'' d2 f" by (rule l2)
      assume "?A = [s1]"
      with n show "fst (link_tables fetch ?cs row) = [?u0, auxiliary_url a1]" by (rule notE)
    qed
  next
    assume sp: "?A = [s1]"
    let ?T = "[tag_table measurement_id ''scRNA'' d0, tag_table measurement_id ''gRNA'' d1]"
    have "aux_tables fetch (cell_of ?cs row ''measurement_sets'') ?A
          = ([auxiliary_url a1],
             Inr [tag_table (cell_of ?cs row ''measurement_sets'') ''gRNA'' d1])"
      unfolding sp using a1 f1 by (rule aux_tables_one)
    from link_tables_ok[OF ms au present f0' this]
    have lt: "link_tables fetch ?cs row = ([?u0, auxiliary_url a1], Inr ?T)"
      unfolding mid .
    have all: "\<forall>r \<in> set (rows result). \<exists>l ts. link_tables fetch ?cs r = (l, Inr ts)"
    proof (intro ballI)
      fix r assume r: "r \<in> set (rows result)"
      show "\<exists>l ts. link_tables fetch ?cs r = (l, Inr ts)"
      proof (cases "r = row")
        case True
        show ?thesis unfolding True using lt by (intro exI)
      next
        case False
        show ?thesis by (rule others[rule_format, OF r False])
      qed
    qed
    have "?T \<noteq> []" by simp
    from get_sequence_files_all[OF all row lt this] obtain tables where
      g: "get_sequence_files fetch result = (?logs, Inr (concat_frames tables))"
      and sub: "set ?T \<subseteq> set tables" by (elim exE conjE)
    from sub have t1: "tag_table measurement_id ''gRNA'' d1 \<in> set tables" by simp
    have l1: "\<forall>f \<in> set (rows d1). labelled (concat_frames tables) ''gRNA'' d1 f"
      unfolding labelled_def by (intro ballI) (rule labelled_copy[OF t1 wf1])
    have n: "?A \<noteq> s1 # s2 # beyond" using sp by simp
    have fl: "fst (link_tables fetch ?cs row) = [?u0, auxiliary_url a1]"
      unfolding lt by (rule fst_conv)
    show ?thesis
    proof (intro exI conjI impI)
      show "get_sequence_files fetch result = (?logs, Inr (concat_frames tables))" by (rule g)
      show "?logs = ?logs" by (rule refl)
      show "\<forall>f \<in> set (rows d1). labelled (concat_frames tables) ''gRNA'' d1 f" by (rule l1)
      show "fst (link_tables fetch ?cs row) = [?u0, auxiliary_url a1]" by (rule fl)
    next
      assume "?A = s1 # s2 # beyond"
      with n show "fst (link_tables fetch ?cs row) = [?u0, auxiliary_url a1, auxiliary_url a2]"
        by (rule notE)
    next
      fix f assume "?A = s1 # s2 # beyond"
      with n show "\<forall>f \<in> set (rows d2). labelled (concat_frames tables) ''hash'' d2 f"
        by (rule notE)
    qed
  qed
next
  show "aux_tables fetch m (t1 # t2 # further) = aux_tables fetch m [t1, t2]"
    by (rule aux_tables_beyond_second)
qed

theorem auxiliary_sets_by_position_witness:
  "\<exists>log out. get_sequence_files example_catalog example_three_aux = (log, Inr out)
     \<and> log = [measurement_url ''IGVFDS0002'', auxiliary_url ''IGVFDS0003'',
              auxiliary_url ''IGVFDS0004'']
     \<and> (\<exists>w \<in> set (rows out).
            cell_of (columns out) w ''file_modality'' = Str ''gRNA''
            \<and> cell_of (columns out) w ''measurement_sets'' = Str ''IGVFDS0002''
            \<and> cell_of (columns out) w ''Accession'' = Str ''G'')
     \<and> (\<exists>w \<in> set (rows out).
            cell_of (columns out) w ''file_modality'' = Str ''hash''
            \<and> cell_of (columns out) w ''measurement_sets'' = Str ''IGVFDS0002''
            \<and> cell_of (columns out) w ''Accession'' = Str ''H'')"
proof -
  let ?cs = "columns example_three_aux"
  let ?row = "rows example_three_aux ! 0"
  let ?d0 = "\<lparr>columns = [''Accession''], rows = [[Str ''M'']]\<rparr>"
  let ?d1 = "\<lparr>columns = [''Accession''], rows = [[Str ''G'']]\<rparr>"
  let ?d2 = "\<lparr>columns = [''Accession''], rows = [[Str ''H'']]\<rparr>"
  let ?s1 = "''/auxiliary-sets/IGVFDS0003/''"
  let ?s2 = "''/auxiliary-sets/IGVFDS0004/''"
  have rs: "rows example_three_aux = [?row]" by code_simp
  have h1: "?row \<in> set (rows example_three_aux)" by code_simp
  have h2: "\<forall>r \<in> set (rows example_three_aux). r \<noteq> ?row \<longrightarrow>
              (\<exists>l ts. link_tables example_catalog ?cs r = (l, Inr ts))"
  proof (intro ballI impI)
    fix r assume m: "r \<in> set (rows example_three_aux)" and n: "r \<noteq> ?row"
    have "set (rows example_three_aux) = set [?row]" using rs by (rule arg_cong)
    with m have "r \<in> set [?row]" by (rule subst[where P = "\<lambda>S. r \<in> S", rotated])
    then have "r = ?row" by simp
    with n show "\<exists>l ts. link_tables example_catalog ?cs r = (l, Inr ts)" by (rule notE)
  qed
  have h3: "''measurement_sets'' \<in> set ?cs" by code_simp
  have h4: "''associated_auxiliary_sets'' \<in> set ?cs" by code_simp
  have h5: "cell_of ?cs ?row ''associated_auxiliary_sets'' \<noteq> NaN" by code_simp
  have h6: "Str ''IGVFDS0002'' = cell_of ?cs ?row ''measurement_sets''" by code_simp
  have h7: "example_catalog (measurement_url (py_str (Str ''IGVFDS0002''))) = Inr ?d0" by code_simp
  have h8: "aux_id_of ?s1 = Inr ''IGVFDS0003''" by code_simp
  have h9: "example_catalog (auxiliary_url ''IGVFDS0003'') = Inr ?d1" by code_simp
  have h10: "well_formed ?d1" by code_simp
  have h11: "aux_id_of ?s2 = Inr ''IGVFDS0004''" by code_simp
  have h12: "example_catalog (auxiliary_url ''IGVFDS0004'') = Inr ?d2" by code_simp
  have h13: "well_formed ?d2" by code_simp
  have sp: "split_aux_sets (cell_of ?cs ?row ''associated_auxiliary_sets'')
            = ?s1 # ?s2 # [''IGVFDS0005'']" by code_simp
  have h14: "split_aux_sets (cell_of ?cs ?row ''associated_auxiliary_sets'')
               = ?s1 # ?s2 # [''IGVFDS0005'']
             \<or> split_aux_sets (cell_of ?cs ?row ''associated_auxiliary_sets'') = [?s1]"
    using sp by (rule disjI1)
  have py: "py_str (Str ''IGVFDS0002'') = ''IGVFDS0002''" by code_simp
  note t = auxiliary_sets_by_position[of ?row example_three_aux example_catalog "Str ''IGVFDS0002''"
      ?d0 ?s1 "''IGVFDS0003''" ?d1 ?s2 "''IGVFDS0004''" ?d2 "[''IGVFDS0005'']",
      OF h1 h2 h3 h4 h5 h6 h7 h8 h9 h10 h11 h12 h13 h14]
  let ?lab = "\<lambda>out label d f. \<exists>w \<in> set (rows out).
       cell_of (columns out) w ''file_modality'' = Str label
       \<and> cell_of (columns out) w ''measurement_sets'' = Str ''IGVFDS0002''
       \<and> (\<forall>c \<in> set (columns d). c \<noteq> ''file_modality'' \<and> c \<noteq> ''measurement_sets''
             \<longrightarrow> cell_of (columns out) w c = cell_of (columns d) f c)"
  from t have "\<exists>log out. get_sequence_files example_catalog example_three_aux = (log, Inr out)
      \<and> log = concat (map (\<lambda>r. fst (link_tables example_catalog ?cs r))
                     (rows example_three_aux))
      \<and> (\<forall>f \<in> set (rows ?d1). ?lab out ''gRNA'' ?d1 f)
      \<and> (split_aux_sets (cell_of ?cs ?row ''associated_auxiliary_sets'')
            = ?s1 # ?s2 # [''IGVFDS0005''] \<longrightarrow>
          fst (link_tables example_catalog ?cs ?row)
            = [measurement_url (py_str (Str ''IGVFDS0002'')), auxiliary_url ''IGVFDS0003'',
               auxiliary_url ''IGVFDS0004'']
          \<and> (\<forall>f \<in> set (rows ?d2). ?lab out ''hash'' ?d2 f))
      \<and> (split_aux_sets (cell_of ?cs ?row ''associated_auxiliary_sets'') = [?s1] \<longrightarrow>
          fst (link_tables example_catalog ?cs ?row)
            = [measurement_url (py_str (Str ''IGVFDS0002'')), auxiliary_url ''IGVFDS0003''])"
    by (rule conjunct1)
  then obtain log out where all:
     "get_sequence_files example_catalog example_three_aux = (log, Inr out)
      \<and> log = concat (map (\<lambda>r. fst (link_tables example_catalog ?cs r))
                     (rows example_three_aux))
      \<and> (\<forall>f \<in> set (rows ?d1). ?lab out ''gRNA'' ?d1 f)
      \<and> (split_aux_sets (cell_of ?cs ?row ''associated_auxiliary_sets'')
            = ?s1 # ?s2 # [''IGVFDS0005''] \<longrightarrow>
          fst (link_tables example_catalog ?cs ?row)
            = [measurement_url (py_str (Str ''IGVFDS0002'')), auxiliary_url ''IGVFDS0003'',
               auxiliary_url ''IGVFDS0004'']
          \<and> (\<forall>f \<in> set (rows ?d2). ?lab out ''hash'' ?d2 f))
      \<and> (split_aux_sets (cell_of ?cs ?row ''associated_auxiliary_sets'') = [?s1] \<longrightarrow>
          fst (link_tables example_catalog ?cs ?row)
            = [measurement_url (py_str (Str ''IGVFDS0002'')), auxiliary_url ''IGVFDS0003''])"
    by (elim exE)
  note g = all[THEN conjunct1]
  note l = all[THEN conjunct2, THEN conjunct1]
  note c1 = all[THEN conjunct2, THEN conjunct2, THEN conjunct1]
  note c2 = all[THEN conjunct2, THEN conjunct2, THEN conjunct2, THEN conjunct1]
  note fl = c2[rule_format, OF sp, THEN conjunct1]
  note c2' = c2[rule_format, OF sp, THEN conjunct2]
  have l': "log = [measurement_url ''IGVFDS0002'', auxiliary_url ''IGVFDS0003'',
                   auxiliary_url ''IGVFDS0004'']"
  proof -
    let ?F = "\<lambda>r. fst (link_tables example_catalog ?cs r)"
    have "concat (map ?F (rows example_three_aux)) = concat (map ?F [?row])"
      using rs by (rule arg_cong)
    also have "\<dots> = ?F ?row" by simp
    also have "\<dots> = [measurement_url (py_str (Str ''IGVFDS0002'')), auxiliary_url ''IGVFDS0003'',
               auxiliary_url ''IGVFDS0004'']" by (rule fl)
    also have "\<dots> = [measurement_url ''IGVFDS0002'', auxiliary_url ''IGVFDS0003'',
               auxiliary_url ''IGVFDS0004'']" unfolding py by (rule refl)
    finally have e: "concat (map ?F (rows example_three_aux))
        = [measurement_url ''IGVFDS0002'', auxiliary_url ''IGVFDS0003'',
           auxiliary_url ''IGVFDS0004'']" .
    from l e show ?thesis by (rule trans)
  qed
  have ne: "''Accession'' \<noteq> ''file_modality'' \<and> ''Accession'' \<noteq> ''measurement_sets''" by simp
  have m1: "[Str ''G''] \<in> set (rows ?d1)" by simp
  have a1: "''Accession'' \<in> set (columns ?d1)" by simp
  have v1: "cell_of (columns ?d1) [Str ''G''] ''Accession'' = Str ''G''" by code_simp
  from c1[rule_format, OF m1] obtain w1 where w1: "w1 \<in> set (rows out)"
    and w1a: "cell_of (columns out) w1 ''file_modality'' = Str ''gRNA''"
    and w1b: "cell_of (columns out) w1 ''measurement_sets'' = Str ''IGVFDS0002''"
    and w1c: "\<forall>c \<in> set (columns ?d1). c \<noteq> ''file_modality'' \<and> c \<noteq> ''measurement_sets''
             \<longrightarrow> cell_of (columns out) w1 c = cell_of (columns ?d1) [Str ''G''] c"
    by (elim bexE conjE)
  from w1c[rule_format, OF a1 ne] v1
  have w1d: "cell_of (columns out) w1 ''Accession'' = Str ''G''" by (rule trans)
  have m2: "[Str ''H''] \<in> set (rows ?d2)" by simp
  have a2: "''Accession'' \<in> set (columns ?d2)" by simp
  have v2: "cell_of (columns ?d2) [Str ''H''] ''Accession'' = Str ''H''" by code_simp
  from c2'[rule_format, OF m2] obtain w2 where w2: "w2 \<in> set (rows out)"
    and w2a: "cell_of (columns out) w2 ''file_modality'' = Str ''hash''"
    and w2b: "cell_of (columns out) w2 ''measurement_sets'' = Str ''IGVFDS0002''"
    and w2c: "\<forall>c \<in> set (columns ?d2). c \<noteq> ''file_modality'' \<and> c \<noteq> ''measurement_sets''
             \<longrightarrow> cell_of (columns out) w2 c = cell_of (columns ?d2) [Str ''H''] c"
    by (elim bexE conjE)
  from w2c[rule_format, OF a2 ne] v2
  have w2d: "cell_of (columns out) w2 ''Accession'' = Str ''H''" by (rule trans)
  show ?thesis
  proof (intro exI conjI)
    show "get_sequence_files example_catalog example_three_aux = (log, Inr out)" by (rule g)
    show "log = [measurement_url ''IGVFDS0002'', auxiliary_url ''IGVFDS0003'',
                 auxiliary_url ''IGVFDS0004'']" by (rule l')
    from w1 w1a w1b w1d show "\<exists>w \<in> set (rows out).
            cell_of (columns out) w ''file_modality'' = Str ''gRNA''
            \<and> cell_of (columns out) w ''measurement_sets'' = Str ''IGVFDS0002''
            \<and> cell_of (columns out) w ''Accession'' = Str ''G''" by (intro bexI conjI)
    from w2 w2a w2b w2d show "\<exists>w \<in> set (rows out).
            cell_of (columns out) w ''file_modality'' = Str ''hash''
            \<and> cell_of (columns out) w ''measurement_sets'' = Str ''IGVFDS0002''
            \<and> cell_of (columns out) w ''Accession'' = Str ''H''" by (intro bexI conjI)
  qed
qed

text \<open>
  Claim C9, as amended. The identifier \<^verbatim>\<open>aux_set.split('/')[-2]\<close> exists exactly when
  the reference contains a \<^verbatim>\<open>/\<close>, and raises \<^verbatim>\<open>IndexError\<close> otherwise. When
  the requests succeed and the only reference of a link, or one of its first two, has no
  \<^verbatim>\<open>/\<close>, the Enumerator raises \<^verbatim>\<open>IndexError\<close> for the link. So the Enumerator
  returns only if, in every link with an auxiliary-set field, each of the first two references
  contains a \<^verbatim>\<open>/\<close>. References after the second are not read, and a trailing
  \<^verbatim>\<open>/\<close> is not needed.
\<close>

theorem aux_id_needs_slash:
  "(aux_id_of s = Inl IndexError \<longleftrightarrow> CHR ''/'' \<notin> set s)
   \<and> (CHR ''/'' \<in> set s \<longrightarrow>
        aux_id_of s = Inr (split_on CHR ''/'' s ! (length (split_on CHR ''/'' s) - 2)))
   \<and> ((\<forall>u. \<exists>d. fetch u = Inr d)
        \<and> ''measurement_sets'' \<in> set cs \<and> ''associated_auxiliary_sets'' \<in> set cs
        \<and> cell_of cs row ''associated_auxiliary_sets'' \<noteq> NaN
        \<and> (\<exists>s \<in> set (take 2 (split_aux_sets (cell_of cs row ''associated_auxiliary_sets''))).
              CHR ''/'' \<notin> set s)
        \<longrightarrow> snd (link_tables fetch cs row) = Inl IndexError)
   \<and> (snd (get_sequence_files fetch result) = Inr out \<longrightarrow>
        (\<forall>r \<in> set (rows result). cell_of (columns result) r ''associated_auxiliary_sets'' \<noteq> NaN \<longrightarrow>
           (\<forall>s \<in> set (take 2 (split_aux_sets (cell_of (columns result) r ''associated_auxiliary_sets''))).
              CHR ''/'' \<in> set s)))"
proof (intro conjI impI ballI)
  show "aux_id_of s = Inl IndexError \<longleftrightarrow> CHR ''/'' \<notin> set s" by (rule aux_id_of_error_iff)
next
  assume "CHR ''/'' \<in> set s"
  then show "aux_id_of s = Inr (split_on CHR ''/'' s ! (length (split_on CHR ''/'' s) - 2))"
    by (simp add: aux_id_of_cases)
next
  assume a: "(\<forall>u. \<exists>d. fetch u = Inr d)
        \<and> ''measurement_sets'' \<in> set cs \<and> ''associated_auxiliary_sets'' \<in> set cs
        \<and> cell_of cs row ''associated_auxiliary_sets'' \<noteq> NaN
        \<and> (\<exists>s \<in> set (take 2 (split_aux_sets (cell_of cs row ''associated_auxiliary_sets''))).
              CHR ''/'' \<notin> set s)"
  then show "snd (link_tables fetch cs row) = Inl IndexError"
    by (intro link_tables_index_error) (elim conjE, assumption)+
next
  fix r s
  assume g: "snd (get_sequence_files fetch result) = Inr out" and r: "r \<in> set (rows result)"
    and p: "cell_of (columns result) r ''associated_auxiliary_sets'' \<noteq> NaN"
    and s: "s \<in> set (take 2 (split_aux_sets (cell_of (columns result) r ''associated_auxiliary_sets'')))"
  from get_sequence_files_Inr[OF g r] obtain l t where
    "link_tables fetch (columns result) r = (l, Inr t)" by blast
  from link_tables_Inr[OF this p] obtain l' t' where
    "aux_tables fetch (cell_of (columns result) r ''measurement_sets'')
       (split_aux_sets (cell_of (columns result) r ''associated_auxiliary_sets'')) = (l', Inr t')"
    by blast
  from aux_tables_Inr_slash[OF this] s show "CHR ''/'' \<in> set s" by blast
qed

theorem aux_id_needs_slash_witness:
  "aux_id_of ''IGVFDS0003'' = Inl IndexError
   \<and> aux_id_of ''/auxiliary-sets/IGVFDS0003/'' = Inr ''IGVFDS0003''
   \<and> snd (link_tables example_fetch (columns example_bad_aux) (rows example_bad_aux ! 0))
       = Inl IndexError
   \<and> snd (get_sequence_files example_fetch example_bad_aux) = Inl IndexError"
proof -
  let ?cs = "columns example_bad_aux"
  let ?row = "rows example_bad_aux ! 0"
  have n: "CHR ''/'' \<notin> set ''IGVFDS0003''" by simp
  have y: "CHR ''/'' \<in> set ''/auxiliary-sets/IGVFDS0003/''" by simp
  have ok: "\<forall>u. \<exists>d. example_fetch u = Inr d" by (simp add: example_fetch_def)
  have h1: "''measurement_sets'' \<in> set ?cs" by code_simp
  have h2: "''associated_auxiliary_sets'' \<in> set ?cs" by code_simp
  have h3: "cell_of ?cs ?row ''associated_auxiliary_sets'' \<noteq> NaN" by code_simp
  have sp: "split_aux_sets (cell_of ?cs ?row ''associated_auxiliary_sets'') = [''IGVFDS0003'']"
    by code_simp
  have bad: "\<exists>s \<in> set (take 2 (split_aux_sets (cell_of ?cs ?row ''associated_auxiliary_sets''))).
              CHR ''/'' \<notin> set s"
    unfolding sp using n by simp
  note t = aux_id_needs_slash[of "''IGVFDS0003''" example_fetch ?cs ?row example_bad_aux empty_frame]
  note t' = aux_id_needs_slash[of "''/auxiliary-sets/IGVFDS0003/''" example_fetch ?cs ?row example_bad_aux empty_frame]
  from t n have 1: "aux_id_of ''IGVFDS0003'' = Inl IndexError" by blast
  from t' y have "aux_id_of ''/auxiliary-sets/IGVFDS0003/''
     = Inr (split_on CHR ''/'' ''/auxiliary-sets/IGVFDS0003/'' ! (length (split_on CHR ''/'' ''/auxiliary-sets/IGVFDS0003/'') - 2))"
    by blast
  moreover have "split_on CHR ''/'' ''/auxiliary-sets/IGVFDS0003/'' ! (length (split_on CHR ''/'' ''/auxiliary-sets/IGVFDS0003/'') - 2) = ''IGVFDS0003''"
    by code_simp
  ultimately have 2: "aux_id_of ''/auxiliary-sets/IGVFDS0003/'' = Inr ''IGVFDS0003''" by simp
  from t ok h1 h2 h3 bad have 3: "snd (link_tables example_fetch ?cs ?row) = Inl IndexError" by blast
  have 4: "snd (get_sequence_files example_fetch example_bad_aux) = Inl IndexError" by code_simp
  from 1 2 3 4 show ?thesis by (intro conjI)
qed

text \<open>
  The claim as stated (normal termination requires every auxiliary reference to be a path)
  fails: the third reference of \<open>example_three_aux\<close> has no \<^verbatim>\<open>/\<close>, and the Enumerator
  returns the three tables of the measurement set and of the first two auxiliary sets.
\<close>

theorem aux_id_needs_slash_counterexample:
  "CHR ''/'' \<notin> set ''IGVFDS0005''
   \<and> split_aux_sets (Str ''/auxiliary-sets/IGVFDS0003/, /auxiliary-sets/IGVFDS0004/, IGVFDS0005'')
      = [''/auxiliary-sets/IGVFDS0003/'', ''/auxiliary-sets/IGVFDS0004/'', ''IGVFDS0005'']
   \<and> get_sequence_files example_fetch example_three_aux
      = ([measurement_url ''IGVFDS0002'', auxiliary_url ''IGVFDS0003'', auxiliary_url ''IGVFDS0004''],
         Inr \<lparr>columns = [''Accession'', ''measurement_sets'', ''file_modality''],
              rows = [[Str ''F'', Str ''IGVFDS0002'', Str ''scRNA''],
                      [Str ''F'', Str ''IGVFDS0002'', Str ''gRNA''],
                      [Str ''F'', Str ''IGVFDS0002'', Str ''hash'']]\<rparr>)"
  by code_simp

end
